theory Spec2Isabelle
  imports Main "HOL-Library.Sublist"
begin

section \<open>Compilation orchestrator: routes/api/collectionCompile/+server.ts\<close>

text \<open>
  The module keeps two process-wide variables, \<open>isCompiling\<close> and \<open>lastCompileTime\<close>.
  Its collaborators \<open>compile\<close> (compile.ts) and \<open>collectionManager.updateCollections\<close>
  are awaited calls that act on the rest of the process (files, registry); they are
  parameters here, acting on a world \<open>'w\<close> and either resolving (\<open>None\<close>) or rejecting
  with an error message (\<open>Some msg\<close>).
\<close>

definition COMPILE_COOLDOWN :: int where
  "COMPILE_COOLDOWN = 60000"

record comp_state =
  isCompiling :: bool
  lastCompileTime :: int

definition initial_state :: comp_state where
  "initial_state = \<lparr>isCompiling = False, lastCompileTime = 0\<rparr>"

datatype http_error = HttpError nat string

datatype json_result = JsonResult (success: bool) (message: string) (timestamp: "int option")

type_synonym response = "http_error + json_result"

record 'w collab =
  compile :: "'w \<Rightarrow> string option \<times> 'w"
  updateCollections :: "bool \<Rightarrow> 'w \<Rightarrow> string option \<times> 'w"

text \<open>
  \<open>handleCompilation\<close>, line 335: the test \<open>forceUpdate || Date.now() - lastCompileTime >
  COMPILE_COOLDOWN\<close> is evaluated when the function is called, on the module state of
  that moment; \<open>nowH\<close> is the value of \<open>Date.now()\<close> there.
\<close>

definition needsCompile :: "comp_state \<Rightarrow> int \<Rightarrow> bool \<Rightarrow> bool" where
  "needsCompile st nowH forceUpdate \<longleftrightarrow>
     forceUpdate \<or> nowH - lastCompileTime st > COMPILE_COOLDOWN"

text \<open>
  The awaited body of \<open>handleCompilation\<close>: \<open>compile()\<close> when the test held, then
  \<open>updateCollections(forceUpdate)\<close>; an error of either is rethrown with the prefix of
  line 346.
\<close>

definition run_pass :: "'w collab \<Rightarrow> bool \<Rightarrow> bool \<Rightarrow> 'w \<Rightarrow> string option \<times> 'w" where
  "run_pass env doCompile forceUpdate w =
     (case (if doCompile then compile env w else (None, w)) of
        (Some msg, w1) \<Rightarrow> (Some (''Compilation process failed: '' @ msg), w1)
      | (None, w1) \<Rightarrow>
          (case updateCollections env forceUpdate w1 of
             (Some msg, w2) \<Rightarrow> (Some (''Compilation process failed: '' @ msg), w2)
           | (None, w2) \<Rightarrow> (None, w2)))"

definition handleCompilation ::
  "'w collab \<Rightarrow> comp_state \<Rightarrow> int \<Rightarrow> bool \<Rightarrow> 'w \<Rightarrow> string option \<times> 'w" where
  "handleCompilation env st nowH forceUpdate w =
     run_pass env (needsCompile st nowH forceUpdate) forceUpdate w"

text \<open>
  A handler runs in two uninterrupted segments: from its entry to the
  \<open>await handleCompilation(...)\<close>, and from the settling of that promise to its return.
  The first segment either returns at once or suspends, having fixed whether \<open>compile\<close>
  will run.
\<close>

datatype entry = Returned json_result | Awaiting bool

definition GET_enter :: "bool \<Rightarrow> int \<Rightarrow> int \<Rightarrow> comp_state \<Rightarrow> entry \<times> comp_state" where
  "GET_enter forceUpdate currentTime nowH st =
     (if isCompiling st then
        (Returned (JsonResult True ''Compilation already in progress'' None), st)
      else if \<not> forceUpdate \<and> currentTime - lastCompileTime st < COMPILE_COOLDOWN then
        (Returned (JsonResult True ''Compilation skipped due to cooldown'' None), st)
      else
        (let st1 = st\<lparr>isCompiling := True, lastCompileTime := currentTime\<rparr>
         in (Awaiting (needsCompile st1 nowH forceUpdate), st1)))"

definition GET_exit :: "int \<Rightarrow> string option \<Rightarrow> comp_state \<Rightarrow> response \<times> comp_state" where
  "GET_exit currentTime outcome st =
     (case outcome of
        None \<Rightarrow>
          (Inr (JsonResult True ''Compilation and collection update completed'' (Some currentTime)),
           st\<lparr>isCompiling := False\<rparr>)
      | Some msg \<Rightarrow> (Inl (HttpError 500 msg), st\<lparr>isCompiling := False\<rparr>))"

definition POST_enter :: "int \<Rightarrow> comp_state \<Rightarrow> entry \<times> comp_state" where
  "POST_enter currentTime st =
     (if isCompiling st then
        (Returned (JsonResult True ''Compilation already in progress'' None), st)
      else
        (let st1 = st\<lparr>isCompiling := True, lastCompileTime := currentTime\<rparr>
         in (Awaiting (needsCompile st1 currentTime True), st1)))"

definition POST_exit :: "int \<Rightarrow> string option \<Rightarrow> comp_state \<Rightarrow> response \<times> comp_state" where
  "POST_exit currentTime outcome st =
     (case outcome of
        None \<Rightarrow>
          (Inr (JsonResult True ''Forced compilation and collection update completed''
                  (Some currentTime)),
           st\<lparr>isCompiling := False\<rparr>)
      | Some msg \<Rightarrow> (Inl (HttpError 500 msg), st\<lparr>isCompiling := False\<rparr>))"

text \<open>A trigger served with no other trigger arriving while it is suspended.\<close>

definition GET ::
  "'w collab \<Rightarrow> bool \<Rightarrow> int \<Rightarrow> int \<Rightarrow> comp_state \<times> 'w \<Rightarrow> response \<times> comp_state \<times> 'w" where
  "GET env forceUpdate currentTime nowH sw =
     (case sw of (st, w) \<Rightarrow>
        (case GET_enter forceUpdate currentTime nowH st of
           (Returned r, st1) \<Rightarrow> (Inr r, st1, w)
         | (Awaiting doCompile, st1) \<Rightarrow>
             (case run_pass env doCompile forceUpdate w of
                (outcome, w') \<Rightarrow>
                  (case GET_exit currentTime outcome st1 of (r, st2) \<Rightarrow> (r, st2, w')))))"

definition POST :: "'w collab \<Rightarrow> int \<Rightarrow> comp_state \<times> 'w \<Rightarrow> response \<times> comp_state \<times> 'w" where
  "POST env currentTime sw =
     (case sw of (st, w) \<Rightarrow>
        (case POST_enter currentTime st of
           (Returned r, st1) \<Rightarrow> (Inr r, st1, w)
         | (Awaiting doCompile, st1) \<Rightarrow>
             (case run_pass env doCompile True w of
                (outcome, w') \<Rightarrow>
                  (case POST_exit currentTime outcome st1 of (r, st2) \<Rightarrow> (r, st2, w')))))"

text \<open>
  Triggers interleaved: a trigger may arrive while another handler is suspended. The
  process is an event loop; \<open>Settle\<close> is the settling of the oldest suspended handler's
  awaited pass, whose effect on the world is applied there.
\<close>

datatype trigger = TriggerGET bool int int | TriggerPOST int | Settle

datatype pending = PendingGET bool bool int | PendingPOST bool int

record 'w process =
  gate :: comp_state
  world :: 'w
  suspended :: "pending list"
  replies :: "response list"

definition boot :: "'w \<Rightarrow> 'w process" where
  "boot w = \<lparr>gate = initial_state, world = w, suspended = [], replies = []\<rparr>"

fun step :: "'w collab \<Rightarrow> 'w process \<Rightarrow> trigger \<Rightarrow> 'w process" where
  "step env p (TriggerGET forceUpdate currentTime nowH) =
     (case GET_enter forceUpdate currentTime nowH (gate p) of
        (Returned r, st1) \<Rightarrow> p\<lparr>gate := st1, replies := replies p @ [Inr r]\<rparr>
      | (Awaiting doCompile, st1) \<Rightarrow>
          p\<lparr>gate := st1, suspended := suspended p @ [PendingGET doCompile forceUpdate currentTime]\<rparr>)"
| "step env p (TriggerPOST currentTime) =
     (case POST_enter currentTime (gate p) of
        (Returned r, st1) \<Rightarrow> p\<lparr>gate := st1, replies := replies p @ [Inr r]\<rparr>
      | (Awaiting doCompile, st1) \<Rightarrow>
          p\<lparr>gate := st1, suspended := suspended p @ [PendingPOST doCompile currentTime]\<rparr>)"
| "step env p Settle =
     (case suspended p of
        [] \<Rightarrow> p
      | PendingGET doCompile forceUpdate currentTime # rest \<Rightarrow>
          (case run_pass env doCompile forceUpdate (world p) of
             (outcome, w') \<Rightarrow>
               (case GET_exit currentTime outcome (gate p) of
                  (r, st2) \<Rightarrow>
                    p\<lparr>gate := st2, world := w', suspended := rest, replies := replies p @ [r]\<rparr>))
      | PendingPOST doCompile currentTime # rest \<Rightarrow>
          (case run_pass env doCompile True (world p) of
             (outcome, w') \<Rightarrow>
               (case POST_exit currentTime outcome (gate p) of
                  (r, st2) \<Rightarrow>
                    p\<lparr>gate := st2, world := w', suspended := rest, replies := replies p @ [r]\<rparr>)))"

definition run :: "'w collab \<Rightarrow> 'w process \<Rightarrow> trigger list \<Rightarrow> 'w process" where
  "run env p evs = foldl (step env) p evs"

text \<open>
  The gate is held exactly while one handler is suspended, and no second handler is
  suspended meanwhile.
\<close>

definition single_flight :: "'w process \<Rightarrow> bool" where
  "single_flight p \<longleftrightarrow> length (suspended p) = (if isCompiling (gate p) then 1 else 0)"

text \<open>
  Collaborators for concrete runs: the world is the log of collaborator calls. In
  \<open>logging_env\<close> every call resolves; in \<open>failing_env\<close> \<open>compile\<close> rejects.
\<close>

datatype call = CallCompile | CallUpdate bool

definition logging_env :: "call list collab" where
  "logging_env = \<lparr>compile = (\<lambda>w. (None, w @ [CallCompile])),
                   updateCollections = (\<lambda>f w. (None, w @ [CallUpdate f]))\<rparr>"

definition failing_env :: "call list collab" where
  "failing_env = \<lparr>compile = (\<lambda>w. (Some ''Collection compilation failed: boom'', w @ [CallCompile])),
                   updateCollections = (\<lambda>f w. (None, w @ [CallUpdate f]))\<rparr>"

section \<open>Hash-gated compiler: routes/api/collectionCompile/compile.ts\<close>

text \<open>
  The file system maps a path to a regular file: its bytes and its modification time in
  milliseconds. \<open>fs.stat\<close> and \<open>fs.readFile\<close> succeed on the paths that are present and fail
  on the others; directories are implicit, so \<open>fs.mkdir(..., {recursive: true})\<close> changes
  nothing. Source text is taken to be valid UTF-8, so the string read with \<open>'utf-8'\<close> and
  the bytes read without an encoding are the same \<open>string\<close>.
  The MD5 hex digest of \<open>crypto\<close> and the TypeScript transform
  (\<open>ts.transpileModule\<close> followed by \<open>modifyTranspiledCode\<close>) are parameters.
\<close>

type_synonym path = string

record regular_file =
  content :: string
  mtime :: int

type_synonym filesystem = "path \<rightharpoonup> regular_file"

type_synonym memo = "path \<rightharpoonup> string"

record toolchain =
  md5 :: "string \<Rightarrow> string"
  transform :: "string \<Rightarrow> string"

abbreviation newline :: char where
  "newline \<equiv> CHR 0x0A"

definition readFile :: "filesystem \<Rightarrow> path \<Rightarrow> string + string" where
  "readFile fs p =
     (case fs p of
        None \<Rightarrow> Inl (''ENOENT: no such file or directory, open '' @ p)
      | Some f \<Rightarrow> Inr (content f))"

definition stat :: "filesystem \<Rightarrow> path \<Rightarrow> regular_file option" where
  "stat fs p = fs p"

text \<open>\<open>s.split('\n')[0]\<close>: the text before the first line feed, the whole text when there is none.\<close>

definition first_line :: "string \<Rightarrow> string" where
  "first_line s = takeWhile (\<lambda>c. c \<noteq> newline) s"

text \<open>\<open>s.replace(pat, rep)\<close> with a string pattern: the first occurrence only.\<close>

fun replace_first :: "string \<Rightarrow> string \<Rightarrow> string \<Rightarrow> string" where
  "replace_first pat rep [] = (if pat = [] then rep else [])"
| "replace_first pat rep (c # cs) =
     (if prefix pat (c # cs) then rep @ drop (length pat) (c # cs)
      else c # replace_first pat rep cs)"

definition getFileHash :: "toolchain \<Rightarrow> filesystem \<Rightarrow> path \<Rightarrow> string + string" where
  "getFileHash tc fs filePath =
     (case readFile fs filePath of
        Inl e \<Rightarrow> Inl (''Failed to get file hash: '' @ e)
      | Inr bytes \<Rightarrow> Inr (md5 tc bytes))"

definition getExistingHash :: "filesystem \<Rightarrow> path \<Rightarrow> string option" where
  "getExistingHash fs filePath =
     (case readFile fs filePath of
        Inl e \<Rightarrow> None
      | Inr text \<Rightarrow> Some (replace_first ''// '' [] (first_line text)))"

definition getContentHash :: "toolchain \<Rightarrow> string \<Rightarrow> string" where
  "getContentHash tc text = md5 tc text"

definition shouldRecompile :: "toolchain \<Rightarrow> filesystem \<Rightarrow> path \<Rightarrow> path \<Rightarrow> string + bool" where
  "shouldRecompile tc fs tsFilePath jsFilePath =
     (case stat fs jsFilePath of
        None \<Rightarrow> Inr True
      | Some jsStats \<Rightarrow>
          (case stat fs tsFilePath of
             None \<Rightarrow> Inr False
           | Some tsStats \<Rightarrow>
               (case getFileHash tc fs tsFilePath of
                  Inl e \<Rightarrow> Inl (''Failed to check if file needs recompilation: '' @ e)
                | Inr contentHash \<Rightarrow>
                    Inr (Some contentHash \<noteq> getExistingHash fs jsFilePath
                         \<or> mtime tsStats > mtime jsStats))))"

text \<open>
  \<open>transpileCode\<close>: \<open>let code = cache.get(filePath); if (!code) {...}\<close>. The test is on the
  truthiness of the memoized string: a missing entry and an empty string both take the
  branch that transforms and stores.
\<close>

definition transpileCode :: "toolchain \<Rightarrow> memo \<Rightarrow> string \<Rightarrow> path \<Rightarrow> string \<times> memo" where
  "transpileCode tc cache text filePath =
     (case cache filePath of
        Some code \<Rightarrow>
          (if code \<noteq> [] then (code, cache)
           else (transform tc text, cache(filePath \<mapsto> transform tc text)))
      | None \<Rightarrow> (transform tc text, cache(filePath \<mapsto> transform tc text)))"

definition writeCompiledFile ::
  "toolchain \<Rightarrow> int \<Rightarrow> filesystem \<Rightarrow> path \<Rightarrow> string \<Rightarrow> string \<Rightarrow> filesystem" where
  "writeCompiledFile tc now fs filePath code originalContent =
     fs(filePath \<mapsto>
        \<lparr>content = ''// '' @ getContentHash tc originalContent @ [newline] @ code, mtime = now\<rparr>)"

text \<open>\<open>path.join\<close> on a folder and a relative path, both already normalised.\<close>

definition path_join :: "path \<Rightarrow> path \<Rightarrow> path" where
  "path_join folder rel = folder @ ''/'' @ rel"

text \<open>\<open>file.replace(/\.ts$/, '.js')\<close>.\<close>

definition js_name :: "path \<Rightarrow> path" where
  "js_name f = (if suffix ''.ts'' f then take (length f - 3) f @ ''.js'' else f)"

text \<open>
  \<open>compileFile\<close> on the files and the memo; \<open>now\<close> is the time a write would stamp on the
  artifact. The result is the error the promise rejects with, if any, and the files and
  memo it leaves.
\<close>

definition compileFile ::
  "toolchain \<Rightarrow> int \<Rightarrow> path \<Rightarrow> path \<Rightarrow> path \<Rightarrow> filesystem \<times> memo
     \<Rightarrow> string option \<times> filesystem \<times> memo" where
  "compileFile tc now f srcFolder destFolder w =
     (case w of (fs, cache) \<Rightarrow>
        (let tsFilePath = path_join srcFolder f;
             jsFilePath = path_join destFolder (js_name f)
         in case shouldRecompile tc fs tsFilePath jsFilePath of
              Inl e \<Rightarrow> (Some (''Failed to compile '' @ f @ '': '' @ e), fs, cache)
            | Inr False \<Rightarrow> (None, fs, cache)
            | Inr True \<Rightarrow>
                (case readFile fs tsFilePath of
                   Inl e \<Rightarrow> (Some (''Failed to compile '' @ f @ '': '' @ e), fs, cache)
                 | Inr text \<Rightarrow>
                     (case transpileCode tc cache text tsFilePath of
                        (code, cache') \<Rightarrow>
                          (None, writeCompiledFile tc now fs jsFilePath code text, cache')))))"

text \<open>
  \<open>Promise.all(files.map(compileFile))\<close>: every file is processed, each on its own pair of
  paths; the pass rejects with the error of the first file that failed.
\<close>

fun compile_all ::
  "toolchain \<Rightarrow> int \<Rightarrow> path \<Rightarrow> path \<Rightarrow> path list \<Rightarrow> filesystem \<times> memo
     \<Rightarrow> string option \<times> filesystem \<times> memo" where
  "compile_all tc now srcFolder destFolder [] w = (None, w)"
| "compile_all tc now srcFolder destFolder (f # rest) w =
     (case compileFile tc now f srcFolder destFolder w of
        (e, w1) \<Rightarrow>
          (case compile_all tc now srcFolder destFolder rest w1 of
             (e', w2) \<Rightarrow> (if e = None then e' else e, w2)))"

text \<open>
  A toolchain for concrete runs. Its digest is MD5 on the listed texts (and the digest of
  the empty text elsewhere); its transform emits plain ESNext module text as it is,
  newline-terminated, and nothing for an empty file.
\<close>

definition sample_md5 :: "string \<Rightarrow> string" where
  "sample_md5 s =
     (if s = ''export const schema = 1;'' then ''81027386c17bae57d35cbbfd5316ddc5''
      else if s = ''export const schema = 2;'' then ''d66f74d8d819723d9e16601d1d7bc9ba''
      else ''d41d8cd98f00b204e9800998ecf8427e'')"

definition sample_transform :: "string \<Rightarrow> string" where
  "sample_transform s = (if s = [] then [] else s @ [newline])"

definition sample_tc :: toolchain where
  "sample_tc = \<lparr>md5 = sample_md5, transform = sample_transform\<rparr>"

text \<open>A digest as \<open>digest('hex')\<close> of MD5 prints it: 32 lower-case hexadecimal digits.\<close>

definition hex_digest :: "string \<Rightarrow> bool" where
  "hex_digest h \<longleftrightarrow> length h = 32 \<and> list_all (\<lambda>c. c \<in> set ''0123456789abcdef'') h"

text \<open>
  Files for concrete runs: \<open>a.ts\<close> with an artifact that carries its hash and is newer,
  \<open>b.ts\<close> edited after its artifact was written from other content.
\<close>

definition sample_fs :: filesystem where
  "sample_fs =
     [''src/a.ts'' \<mapsto> \<lparr>content = ''export const schema = 1;'', mtime = 100\<rparr>,
      ''out/a.js'' \<mapsto>
        \<lparr>content = ''// 81027386c17bae57d35cbbfd5316ddc5'' @ [newline] @ ''export const schema = 1;''
                     @ [newline],
         mtime = 200\<rparr>,
      ''src/b.ts'' \<mapsto> \<lparr>content = ''export const schema = 2;'', mtime = 250\<rparr>,
      ''out/b.js'' \<mapsto>
        \<lparr>content = ''// 81027386c17bae57d35cbbfd5316ddc5'' @ [newline] @ ''export const schema = 1;''
                     @ [newline],
         mtime = 200\<rparr>]"

section \<open>Collections read endpoint: routes/api/collections/+server.ts\<close>

text \<open>
  Values that \<open>JSON.parse\<close> returns. \<open>JSON.parse\<close> itself is a parameter of the model: a
  function from text to a value, or to nothing where it throws a \<open>SyntaxError\<close>.
\<close>

datatype jsval =
    JNull
  | JBool bool
  | JNum int
  | JStr string
  | JArr "jsval list"
  | JObj "(string \<times> jsval) list"

text \<open>\<open>typeof v === 'object'\<close>: objects, arrays and \<open>null\<close>.\<close>

fun typeof_object :: "jsval \<Rightarrow> bool" where
  "typeof_object JNull = True"
| "typeof_object (JArr xs) = True"
| "typeof_object (JObj kvs) = True"
| "typeof_object v = False"

abbreviation dquote :: char where
  "dquote \<equiv> CHR 0x22"

text \<open>A word character of a regular expression without flags: \<open>[A-Za-z0-9_]\<close>.\<close>

definition is_word :: "char \<Rightarrow> bool" where
  "is_word c \<longleftrightarrow>
     c \<in> set (''abcdefghijklmnopqrstuvwxyz'' @ ''ABCDEFGHIJKLMNOPQRSTUVWXYZ'' @ ''0123456789_'')"

definition starts_with_word :: "string \<Rightarrow> bool" where
  "starts_with_word s = (case s of [] \<Rightarrow> False | c # cs \<Rightarrow> is_word c)"

text \<open>
  \<open>s.replace(/\bkw\b/g, '"kw"')\<close> for a keyword of word characters, scanning from the
  left. \<open>prevWord\<close> tells whether the character before the current position is a word
  character; \<open>skip\<close> counts the characters of a match still to be passed over. A match
  needs a word boundary on both sides: no word character before it and none after it.
\<close>

fun replace_word :: "string \<Rightarrow> bool \<Rightarrow> nat \<Rightarrow> string \<Rightarrow> string" where
  "replace_word kw prevWord skip [] = []"
| "replace_word kw prevWord skip (c # cs) =
     (if skip > 0 then replace_word kw (is_word c) (skip - 1) cs
      else if \<not> prevWord \<and> prefix kw (c # cs)
              \<and> \<not> starts_with_word (drop (length kw) (c # cs))
      then [dquote] @ kw @ [dquote] @ replace_word kw (is_word c) (length kw - 1) cs
      else c # replace_word kw (is_word c) 0 cs)"

definition sanitize :: "string \<Rightarrow> string" where
  "sanitize text =
     replace_word ''class'' False 0
       (replace_word ''new'' False 0
          (replace_word ''eval'' False 0
             (replace_word ''function'' False 0 text)))"

text \<open>
  \<open>safeParseCollectionFile\<close>: the result is the object \<open>{default: parsed}\<close>; every failure
  inside the \<open>try\<close> is rethrown as \<open>Error('Invalid collection file format')\<close>.
\<close>

definition safeParseCollectionFile :: "(string \<Rightarrow> jsval option) \<Rightarrow> string \<Rightarrow> string + jsval" where
  "safeParseCollectionFile JSON_parse text =
     (case JSON_parse (sanitize text) of
        None \<Rightarrow> Inl ''Invalid collection file format''
      | Some parsed \<Rightarrow>
          (if \<not> typeof_object parsed \<or> parsed = JNull
           then Inl ''Invalid collection file format''
           else Inr (JObj [(''default'', parsed)])))"

text \<open>
  A folder is the list of its regular files, name and content, in \<open>readdir\<close> order.
  \<open>processBatch\<close> reads and parses each file of a batch; \<open>Promise.all\<close> rejects with the
  error of the first file that fails.
\<close>

definition readFolderFile :: "(string \<times> string) list \<Rightarrow> string \<Rightarrow> string + string" where
  "readFolderFile listing fileName =
     (case map_of listing fileName of
        None \<Rightarrow> Inl (''ENOENT: no such file or directory, open '' @ fileName)
      | Some text \<Rightarrow> Inr text)"

fun processBatch ::
  "(string \<Rightarrow> jsval option) \<Rightarrow> (string \<times> string) list \<Rightarrow> string list \<Rightarrow> string + jsval list" where
  "processBatch JSON_parse listing [] = Inr []"
| "processBatch JSON_parse listing (f # rest) =
     (case readFolderFile listing f of
        Inl e \<Rightarrow> Inl e
      | Inr text \<Rightarrow>
          (case safeParseCollectionFile JSON_parse text of
             Inl e \<Rightarrow> Inl e
           | Inr m \<Rightarrow>
               (case processBatch JSON_parse listing rest of
                  Inl e \<Rightarrow> Inl e
                | Inr ms \<Rightarrow> Inr (m # ms))))"

definition CACHE_TTL :: nat where
  "CACHE_TTL = 300"

definition BATCH_SIZE :: nat where
  "BATCH_SIZE = 50"

function batches :: "'a list \<Rightarrow> 'a list list" where
  "batches xs = (if xs = [] then [] else take BATCH_SIZE xs # batches (drop BATCH_SIZE xs))"
  by pat_completeness auto
termination
  by (relation "measure length") (auto simp: BATCH_SIZE_def)

declare batches.simps [simp del]

fun processBatches ::
  "(string \<Rightarrow> jsval option) \<Rightarrow> (string \<times> string) list \<Rightarrow> string list list \<Rightarrow> string + jsval list" where
  "processBatches JSON_parse listing [] = Inr []"
| "processBatches JSON_parse listing (b # bs) =
     (case processBatch JSON_parse listing b of
        Inl e \<Rightarrow> Inl e
      | Inr ms \<Rightarrow>
          (case processBatches JSON_parse listing bs of
             Inl e \<Rightarrow> Inl e
           | Inr rest \<Rightarrow> Inr (ms @ rest)))"

text \<open>
  A collection descriptor of the registry: the three fields the endpoint reads, and the
  rest of the descriptor.
\<close>

datatype 'd collection = Collection (col_name: string) (col_icon: string) (col_path: string) (col_rest: 'd)

datatype ('d, 'g) payload =
    Structure "'d collection list" 'g
  | Files "jsval list"
  | FileModule jsval
  | Names "string list"
  | OneCollection "'d collection"
  | Basic "(string \<times> string \<times> string) list"

text \<open>
  What a \<open>throw\<close> inside the handler's \<open>try\<close> throws: the framework's \<open>error(status, message)\<close>
  or an \<open>Error\<close>.
\<close>

datatype thrown = KitError nat string | JsError string

record ('d, 'g) server =
  browser :: bool
  redisEnabled :: bool
  collections :: "'d collection list"
  categories :: 'g
  folder :: "(string \<times> string) list option"
  JSON_parse :: "string \<Rightarrow> jsval option"
  stringOfKitError :: "nat \<Rightarrow> string \<Rightarrow> string"

text \<open>
  The \<open>catch\<close> of the handler, lines 584 to 588: \<open>err.message\<close> for an \<open>Error\<close>, \<open>String(err)\<close>
  otherwise, rethrown as \<open>error(500, ...)\<close> whatever was caught.
\<close>

definition caught :: "('d, 'g) server \<Rightarrow> thrown \<Rightarrow> http_error" where
  "caught srv t =
     HttpError 500
       (''Failed to process collections request: ''
          @ (case t of JsError m \<Rightarrow> m | KitError status m \<Rightarrow> stringOfKitError srv status m))"

text \<open>\<open>!name\<close>: the parameter is absent or empty.\<close>

definition falsy :: "string option \<Rightarrow> bool" where
  "falsy s \<longleftrightarrow> s = None \<or> s = Some []"

definition cacheKey :: "string option \<Rightarrow> string option \<Rightarrow> string" where
  "cacheKey action name =
     ''api:collections:''
       @ (if falsy action then ''default'' else the action)
       @ (if falsy name then [] else '':'' @ the name)"

text \<open>\<open>path.basename\<close>: the last segment, trailing separators dropped.\<close>

definition basename :: "string \<Rightarrow> string" where
  "basename p =
     rev (takeWhile (\<lambda>c. c \<noteq> CHR ''/'') (dropWhile (\<lambda>c. c = CHR ''/'') (rev p)))"

text \<open>The \<open>switch\<close> of the handler, lines 505 to 575.\<close>

definition compute_response ::
  "('d, 'g) server \<Rightarrow> string option \<Rightarrow> string option \<Rightarrow> thrown + ('d, 'g) payload" where
  "compute_response srv action name =
     (if action = Some ''structure'' then Inr (Structure (collections srv) (categories srv))
      else if action = Some ''files'' then
        (case folder srv of
           None \<Rightarrow> Inl (JsError ''ENOENT: no such file or directory, scandir'')
         | Some listing \<Rightarrow>
             (case processBatches (JSON_parse srv) listing
                     (batches (filter (\<lambda>f. suffix ''.js'' f) (map fst listing))) of
                Inl e \<Rightarrow> Inl (JsError e)
              | Inr ms \<Rightarrow> Inr (Files ms)))
      else if action = Some ''file'' then
        (if falsy name then Inl (KitError 400 ''File name required'')
         else if basename (the name) = ''..'' then Inl (KitError 400 ''Invalid file path'')
         else
           (case folder srv of
              None \<Rightarrow> Inl (JsError ''ENOENT: no such file or directory, open'')
            | Some listing \<Rightarrow>
                (case readFolderFile listing (basename (the name)) of
                   Inl e \<Rightarrow> Inl (JsError e)
                 | Inr text \<Rightarrow>
                     (case safeParseCollectionFile (JSON_parse srv) text of
                        Inl e \<Rightarrow> Inl (JsError e)
                      | Inr m \<Rightarrow> Inr (FileModule m)))))
      else if action = Some ''names'' then Inr (Names (map col_name (collections srv)))
      else if action = Some ''collection'' then
        (if falsy name then Inl (KitError 400 ''Collection name is required'')
         else
           (case find (\<lambda>c. col_name c = the name) (collections srv) of
              None \<Rightarrow> Inl (KitError 404 ''Collection not found'')
            | Some foundCollection \<Rightarrow> Inr (OneCollection foundCollection)))
      else Inr (Basic (map (\<lambda>c. (col_name c, col_icon c, col_path c)) (collections srv))))"

text \<open>
  The handler. The helpers of the distributed tier are parameters acting on the tier
  \<open>'c\<close>: \<open>getCache\<close> resolves with a cached payload or with nothing, or rejects;
  \<open>setCache\<close> resolves or rejects. Both are awaited inside the \<open>try\<close>, so a rejection
  reaches the \<open>catch\<close>.
\<close>

definition collections_GET ::
  "('d, 'g) server
     \<Rightarrow> ('c \<Rightarrow> string \<Rightarrow> string + ('d, 'g) payload option)
     \<Rightarrow> ('c \<Rightarrow> string \<Rightarrow> ('d, 'g) payload \<Rightarrow> nat \<Rightarrow> string option \<times> 'c)
     \<Rightarrow> string option \<Rightarrow> string option \<Rightarrow> 'c
     \<Rightarrow> (http_error + ('d, 'g) payload) \<times> 'c" where
  "collections_GET srv getCache setCache action name tier =
     (let useCache = \<not> browser srv \<and> redisEnabled srv in
      case (if useCache then getCache tier (cacheKey action name) else Inr None) of
        Inl e \<Rightarrow> (Inl (caught srv (JsError e)), tier)
      | Inr (Some cached) \<Rightarrow> (Inr cached, tier)
      | Inr None \<Rightarrow>
          (case compute_response srv action name of
             Inl t \<Rightarrow> (Inl (caught srv t), tier)
           | Inr response \<Rightarrow>
               (if useCache then
                  (case setCache tier (cacheKey action name) response CACHE_TTL of
                     (Some e, tier') \<Rightarrow> (Inl (caught srv (JsError e)), tier')
                   | (None, tier') \<Rightarrow> (Inr response, tier'))
                else (Inr response, tier))))"

text \<open>
  Modelled from the spec: the helpers \<open>getCache\<close> and \<open>setCache\<close> of \<open>@src/databases/redis\<close>,
  which are not among the sources. The spec has the distributed tier optional and
  degrading gracefully: a tier that is unavailable is logged and bypassed, a failed read
  is a cache miss, a failed write stores nothing, and neither fails the request. The
  tier holds its entries and whether its reads and its writes currently fail. Expiry
  after the TTL is not modelled.
\<close>

record ('d, 'g) redis_tier =
  readsFail :: bool
  writesFail :: bool
  entries :: "string \<rightharpoonup> ('d, 'g) payload"

definition redis_getCache ::
  "('d, 'g) redis_tier \<Rightarrow> string \<Rightarrow> string + ('d, 'g) payload option" where
  "redis_getCache tier key = Inr (if readsFail tier then None else entries tier key)"

definition redis_setCache ::
  "('d, 'g) redis_tier \<Rightarrow> string \<Rightarrow> ('d, 'g) payload \<Rightarrow> nat \<Rightarrow> string option \<times> ('d, 'g) redis_tier" where
  "redis_setCache tier key v ttl =
     (None, if writesFail tier then tier else tier\<lparr>entries := (entries tier)(key \<mapsto> v)\<rparr>)"

text \<open>
  A server for concrete runs: one collection in the registry, a folder with one JSON file
  and one artifact as the compiler writes it. Its \<open>JSON.parse\<close> knows the listed texts and
  rejects every other; its rendering of a framework error is the JSON of the error body.
\<close>

definition sample_parse :: "string \<Rightarrow> jsval option" where
  "sample_parse t =
     (if t = ''{}'' then Some (JObj [])
      else if t = ''null'' then Some JNull
      else if t = ''{'' @ [dquote] @ ''widget'' @ [dquote] @ '': '' @ [dquote] @ ''function'' @ [dquote] @ ''}''
        then Some (JObj [(''widget'', JStr ''function'')])
      else None)"

definition sample_server :: "(unit, unit) server" where
  "sample_server =
     \<lparr>browser = False, redisEnabled = False,
      collections = [Collection ''posts'' ''mdi:post'' ''/posts'' ()],
      categories = (),
      folder = Some [(''posts.json'', ''{'' @ [dquote] @ ''widget'' @ [dquote] @ '': function}''),
                     (''posts.js'', ''// 81027386c17bae57d35cbbfd5316ddc5'' @ [newline]
                                     @ ''export const schema = 1;'' @ [newline])],
      JSON_parse = sample_parse,
      stringOfKitError = (\<lambda>status m. ''{'' @ [dquote] @ ''message'' @ [dquote] @ '':'' @ [dquote] @ m @ [dquote] @ ''}'')\<rparr>"

definition no_getCache :: "unit \<Rightarrow> string \<Rightarrow> string + (unit, unit) payload option" where
  "no_getCache tier key = Inr None"

definition no_setCache :: "unit \<Rightarrow> string \<Rightarrow> (unit, unit) payload \<Rightarrow> nat \<Rightarrow> string option \<times> unit" where
  "no_setCache tier key v ttl = (None, ())"

text \<open>
  The words of the spec for what the two read actions serve. A keyword stands as a whole
  word between the text before it and the text after it when neither neighbouring
  character is a word character. The module served for a file content is
  \<open>{default: parsed}\<close> when the sanitized text parses as JSON to an object or array, and
  there is none otherwise.
\<close>

definition reserved_words :: "string list" where
  "reserved_words = [''function'', ''eval'', ''new'', ''class'']"

definition whole_word :: "string \<Rightarrow> string \<Rightarrow> bool" where
  "whole_word pre post \<longleftrightarrow>
     (pre = [] \<or> \<not> is_word (last pre)) \<and> (post = [] \<or> \<not> is_word (hd post))"

definition served_module :: "(string \<Rightarrow> jsval option) \<Rightarrow> string \<Rightarrow> jsval option" where
  "served_module parse body =
     (case parse (sanitize body) of
        None \<Rightarrow> None
      | Some parsed \<Rightarrow>
          (if typeof_object parsed \<and> parsed \<noteq> JNull
           then Some (JObj [(''default'', parsed)]) else None))"

text \<open>A server whose folder holds two \<open>.js\<close> files that parse once sanitized, and a note.\<close>

definition json_server :: "(unit, unit) server" where
  "json_server =
     sample_server
       \<lparr>folder := Some [(''posts.js'', ''{'' @ [dquote] @ ''widget'' @ [dquote] @ '': function}''),
                        (''notes.txt'', ''renew the news''),
                        (''empty.js'', ''{}'')]\<rparr>"

section \<open>Category endpoint: routes/api/categories/+server.ts\<close>

text \<open>
  A category (\<open>CategoryData\<close>) is an object: its plain properties, \<open>id\<close> among them, in
  enumeration order, and the optional property \<open>subcategories\<close>, a record of categories
  by key. A record is the list of its entries in the order \<open>for (const key in cats)\<close>
  visits them. The updates of a request are a partial category: the properties it
  supplies.
\<close>

datatype category =
  Category (props: "(string \<times> jsval) list") (subcategories: "(string \<times> category) list option")

type_synonym categories = "(string \<times> category) list"

text \<open>\<open>target[k] = v\<close>: an own property keeps its place, a new one is added last.\<close>

fun set_field :: "string \<Rightarrow> jsval \<Rightarrow> (string \<times> jsval) list \<Rightarrow> (string \<times> jsval) list" where
  "set_field k v [] = [(k, v)]"
| "set_field k v ((k', v') # rest) =
     (if k' = k then (k, v) # rest else (k', v') # set_field k v rest)"

text \<open>\<open>Object.assign(target, source)\<close>.\<close>

definition assign :: "category \<Rightarrow> category \<Rightarrow> category" where
  "assign target source =
     Category (foldl (\<lambda>fs kv. set_field (fst kv) (snd kv) fs) (props target) (props source))
       (case subcategories source of
          None \<Rightarrow> subcategories target
        | Some sub \<Rightarrow> Some sub)"

text \<open>
  \<open>updateCategory\<close>, lines 152 to 164. It mutates the tree in place and returns whether it
  found the category; here it returns the tree after the mutation when it found it, and
  nothing when it did not (the tree is then as before). \<open>categoryId\<close> is the value of the
  request's property, \<open>None\<close> when the request has none; \<open>cats[key].id === categoryId\<close>
  compares it with the node's \<open>id\<close> property.
\<close>

fun updateCategory :: "jsval option \<Rightarrow> category \<Rightarrow> categories \<Rightarrow> categories option" where
  "updateCategory categoryId updates [] = None"
| "updateCategory categoryId updates ((key, Category fs None) # rest) =
     (if map_of fs ''id'' = categoryId
      then Some ((key, assign (Category fs None) updates) # rest)
      else (case updateCategory categoryId updates rest of
              None \<Rightarrow> None
            | Some rest' \<Rightarrow> Some ((key, Category fs None) # rest')))"
| "updateCategory categoryId updates ((key, Category fs (Some sub)) # rest) =
     (if map_of fs ''id'' = categoryId
      then Some ((key, assign (Category fs (Some sub)) updates) # rest)
      else (case updateCategory categoryId updates sub of
              Some sub' \<Rightarrow> Some ((key, Category fs (Some sub')) # rest)
            | None \<Rightarrow>
                (case updateCategory categoryId updates rest of
                   None \<Rightarrow> None
                 | Some rest' \<Rightarrow> Some ((key, Category fs (Some sub)) # rest'))))"

text \<open>
  The handler. The registry hands out its live \<open>categories\<close> object, which
  \<open>updateCategory\<close> mutates; \<open>categoriesFile\<close> is the tree that \<open>categories.ts\<close> holds, as
  \<open>saveCategoryFile\<close> serialises it. The awaited collaborators resolve (\<open>None\<close>) or reject
  with a message. The module uses the identifier \<open>browser\<close> (lines 93, 105, 130, 174)
  and has no import or declaration of it: \<open>browserBinding\<close> is its value where the
  environment binds it, and \<open>None\<close> where evaluating it throws a \<open>ReferenceError\<close>.
\<close>

record cat_state =
  registryCategories :: categories
  categoriesFile :: "categories option"

record cat_env =
  backupCategoryFiles :: "string option"
  writeFile :: "string option"
  browserBinding :: "bool option"
  isRedisEnabled :: bool
  clearCache :: "string option"
  reloadCollections :: "string option"
  kitErrorString :: "nat \<Rightarrow> string \<Rightarrow> string"

datatype put_result = PutResult bool string categories

definition put_fault :: "string \<Rightarrow> http_error" where
  "put_fault m = HttpError 500 (''Failed to update category: '' @ m)"

definition saveCategoryFile :: "cat_env \<Rightarrow> categories \<Rightarrow> cat_state \<Rightarrow> string option \<times> cat_state" where
  "saveCategoryFile env cats st =
     (case writeFile env of
        Some e \<Rightarrow> (Some ''Failed to save categories file'', st)
      | None \<Rightarrow> (None, st\<lparr>categoriesFile := Some cats\<rparr>))"

definition PUT ::
  "cat_env \<Rightarrow> jsval option \<Rightarrow> category \<Rightarrow> cat_state \<Rightarrow> (http_error + put_result) \<times> cat_state" where
  "PUT env categoryId updates st =
     (case updateCategory categoryId updates (registryCategories st) of
        None \<Rightarrow> (Inl (put_fault (kitErrorString env 404 ''Category not found'')), st)
      | Some cats \<Rightarrow>
          (let st1 = st\<lparr>registryCategories := cats\<rparr> in
           case backupCategoryFiles env of
             Some e \<Rightarrow> (Inl (put_fault e), st1)
           | None \<Rightarrow>
               (case saveCategoryFile env cats st1 of
                  (Some e, st2) \<Rightarrow> (Inl (put_fault e), st2)
                | (None, st2) \<Rightarrow>
                    (case browserBinding env of
                       None \<Rightarrow> (Inl (put_fault ''browser is not defined''), st2)
                     | Some b \<Rightarrow>
                         (case (if \<not> b \<and> isRedisEnabled env then clearCache env else None) of
                            Some e \<Rightarrow> (Inl (put_fault e), st2)
                          | None \<Rightarrow>
                              (case reloadCollections env of
                                 Some e \<Rightarrow> (Inl (put_fault e), st2)
                               | None \<Rightarrow>
                                   (Inr (PutResult True ''Category updated successfully'' cats),
                                    st2)))))))"

text \<open>
  The words of the spec: the node is the first one with the identifier in depth-first
  order, each key before its subcategories and those before the next sibling. A node is
  addressed by the keys on the way to it.
\<close>

fun paths :: "categories \<Rightarrow> string list list" where
  "paths [] = []"
| "paths ((key, Category fs None) # rest) = [key] # paths rest"
| "paths ((key, Category fs (Some sub)) # rest) = [key] # map ((#) key) (paths sub) @ paths rest"

fun node_at :: "categories \<Rightarrow> string list \<Rightarrow> category option" where
  "node_at cats [] = None"
| "node_at cats (k # ks) =
     (case map_of cats k of
        None \<Rightarrow> None
      | Some c \<Rightarrow>
          (if ks = [] then Some c
           else (case subcategories c of None \<Rightarrow> None | Some sub \<Rightarrow> node_at sub ks)))"

definition has_id :: "jsval option \<Rightarrow> categories \<Rightarrow> string list \<Rightarrow> bool" where
  "has_id categoryId cats p =
     (case node_at cats p of None \<Rightarrow> False | Some c \<Rightarrow> map_of (props c) ''id'' = categoryId)"

definition dfs_first :: "jsval option \<Rightarrow> categories \<Rightarrow> string list option" where
  "dfs_first categoryId cats = find (has_id categoryId cats) (paths cats)"

fun modify_at :: "(category \<Rightarrow> category) \<Rightarrow> string list \<Rightarrow> categories \<Rightarrow> categories" where
  "modify_at f [] cats = cats"
| "modify_at f (k # ks) [] = []"
| "modify_at f (k # ks) ((key, c) # rest) =
     (if key = k then
        (if ks = [] then (key, f c) # rest
         else (case subcategories c of
                 None \<Rightarrow> (key, c) # rest
               | Some sub \<Rightarrow> (key, Category (props c) (Some (modify_at f ks sub))) # rest))
      else (key, c) # modify_at f (k # ks) rest)"

text \<open>The keys of a record are distinct, at every level.\<close>

fun distinct_keys :: "categories \<Rightarrow> bool" where
  "distinct_keys [] = True"
| "distinct_keys ((key, Category fs None) # rest) =
     (key \<notin> fst ` set rest \<and> distinct_keys rest)"
| "distinct_keys ((key, Category fs (Some sub)) # rest) =
     (key \<notin> fst ` set rest \<and> distinct_keys sub \<and> distinct_keys rest)"

text \<open>The tree of the spec's example, \<open>{A: {id: 1}, B: {id: 2, subcategories: {C: {id: 3}}}}\<close>,
  with a name on each node, and collaborators that resolve.\<close>

definition example_tree :: categories where
  "example_tree =
     [(''A'', Category [(''id'', JNum 1), (''name'', JStr ''Alpha'')] None),
      (''B'', Category [(''id'', JNum 2), (''name'', JStr ''Beta'')]
                (Some [(''C'', Category [(''id'', JNum 3), (''name'', JStr ''Gamma'')] None)]))]"

definition example_env :: cat_env where
  "example_env =
     \<lparr>backupCategoryFiles = None, writeFile = None, browserBinding = None,
      isRedisEnabled = False, clearCache = None, reloadCollections = None,
      kitErrorString = (\<lambda>status m. m)\<rparr>"

section \<open>Properties of the orchestrator\<close>

text \<open>The two segments of a handler, put together, are the handler as the source has it.\<close>

lemma GET_as_written:
  "GET env forceUpdate currentTime nowH (st, w) =
     (if isCompiling st then
        (Inr (JsonResult True ''Compilation already in progress'' None), st, w)
      else if \<not> forceUpdate \<and> currentTime - lastCompileTime st < COMPILE_COOLDOWN then
        (Inr (JsonResult True ''Compilation skipped due to cooldown'' None), st, w)
      else
        (case handleCompilation env (st\<lparr>isCompiling := True, lastCompileTime := currentTime\<rparr>)
                nowH forceUpdate w of
           (None, w') \<Rightarrow>
             (Inr (JsonResult True ''Compilation and collection update completed'' (Some currentTime)),
              st\<lparr>isCompiling := False, lastCompileTime := currentTime\<rparr>, w')
         | (Some msg, w') \<Rightarrow>
             (Inl (HttpError 500 msg),
              st\<lparr>isCompiling := False, lastCompileTime := currentTime\<rparr>, w')))"
  by (simp add: GET_def GET_enter_def GET_exit_def handleCompilation_def Let_def
      split: prod.split option.split)

lemma POST_as_written:
  "POST env currentTime (st, w) =
     (if isCompiling st then
        (Inr (JsonResult True ''Compilation already in progress'' None), st, w)
      else
        (case handleCompilation env (st\<lparr>isCompiling := True, lastCompileTime := currentTime\<rparr>)
                currentTime True w of
           (None, w') \<Rightarrow>
             (Inr (JsonResult True ''Forced compilation and collection update completed''
                     (Some currentTime)),
              st\<lparr>isCompiling := False, lastCompileTime := currentTime\<rparr>, w')
         | (Some msg, w') \<Rightarrow>
             (Inl (HttpError 500 msg),
              st\<lparr>isCompiling := False, lastCompileTime := currentTime\<rparr>, w')))"
  by (simp add: POST_def POST_enter_def POST_exit_def handleCompilation_def Let_def
      split: prod.split option.split)

lemma GET_exit_releases: "\<not> isCompiling (snd (GET_exit t outcome st))"
  by (simp add: GET_exit_def split: option.split)

lemma POST_exit_releases: "\<not> isCompiling (snd (POST_exit t outcome st))"
  by (simp add: POST_exit_def split: option.split)

lemma GET_enter_closed:
  "isCompiling st \<Longrightarrow>
   GET_enter f t n st = (Returned (JsonResult True ''Compilation already in progress'' None), st)"
  by (simp add: GET_enter_def)

lemma POST_enter_closed:
  "isCompiling st \<Longrightarrow>
   POST_enter t st = (Returned (JsonResult True ''Compilation already in progress'' None), st)"
  by (simp add: POST_enter_def)

lemma GET_releases: "\<not> isCompiling st \<Longrightarrow> \<not> isCompiling (fst (snd (GET env f t n (st, w))))"
  by (auto simp: GET_def GET_enter_def GET_exit_def Let_def split: prod.split option.split)

lemma POST_releases: "\<not> isCompiling st \<Longrightarrow> \<not> isCompiling (fst (snd (POST env t (st, w))))"
  by (auto simp: POST_def POST_enter_def POST_exit_def Let_def split: prod.split option.split)

lemma single_flight_boot: "single_flight (boot w)"
  by (simp add: single_flight_def boot_def initial_state_def)

lemma single_flight_step: "single_flight p \<Longrightarrow> single_flight (step env p ev)"
proof (cases ev)
  case (TriggerGET f t n)
  assume "single_flight p"
  then show ?thesis using TriggerGET
    by (auto simp: single_flight_def GET_enter_def Let_def)
next
  case (TriggerPOST t)
  assume "single_flight p"
  then show ?thesis using TriggerPOST
    by (auto simp: single_flight_def POST_enter_def Let_def)
next
  case Settle
  assume sf: "single_flight p"
  show ?thesis
  proof (cases "suspended p")
    case Nil
    then show ?thesis using sf Settle by simp
  next
    case (Cons q rest)
    with sf have "rest = []"
      by (auto simp: single_flight_def split: if_splits)
    with Cons Settle show ?thesis
      by (cases q)
        (auto simp: single_flight_def GET_exit_def POST_exit_def split: prod.split option.split)
  qed
qed

lemma single_flight_run: "single_flight p \<Longrightarrow> single_flight (run env p evs)"
  unfolding run_def by (induction evs arbitrary: p) (simp_all add: single_flight_step)

lemma settle_releases:
  assumes "single_flight p"
  shows "\<not> isCompiling (gate (step env p Settle))"
proof (cases "suspended p")
  case Nil
  with assms show ?thesis by (auto simp: single_flight_def split: if_splits)
next
  case (Cons q rest)
  then show ?thesis
    by (cases q) (auto simp: GET_exit_def POST_exit_def split: prod.split option.split)
qed

lemma step_closed:
  assumes "isCompiling (gate p)" and "ev \<noteq> Settle"
  shows "step env p ev =
           p\<lparr>replies := replies p @ [Inr (JsonResult True ''Compilation already in progress'' None)]\<rparr>"
  using assms by (cases ev) (simp_all add: GET_enter_closed POST_enter_closed)

text \<open>
  Claim C1. The orchestrator is a single-flight gate. A GET or POST trigger that finds
  \<open>isCompiling\<close> set returns the success result "Compilation already in progress" and
  leaves the module state and the world (files, memo, registry) as they were, so no
  collaborator ran. A trigger that finds the gate open leaves it open when it has
  completed, whether the pass resolved or rejected. In every process reachable from the
  initial one by any sequence of triggers and settlings, at most one handler is
  suspended; the gate is held exactly while one is; a trigger arriving meanwhile only
  adds the "already in progress" reply; and the settling of the suspended pass,
  resolved or rejected, opens the gate in the same step that produces its reply.
\<close>

theorem C1_single_flight_gate:
  "(isCompiling st \<longrightarrow>
      GET env f t n (st, w) =
        (Inr (JsonResult True ''Compilation already in progress'' None), st, w) \<and>
      POST env t (st, w) =
        (Inr (JsonResult True ''Compilation already in progress'' None), st, w)) \<and>
   (\<not> isCompiling st \<longrightarrow>
      \<not> isCompiling (fst (snd (GET env f t n (st, w)))) \<and>
      \<not> isCompiling (fst (snd (POST env t (st, w))))) \<and>
   (let p = run env (boot w0) evs in
      length (suspended p) \<le> 1 \<and>
      (isCompiling (gate p) \<longleftrightarrow> suspended p \<noteq> []) \<and>
      (isCompiling (gate p) \<longrightarrow>
         step env p (TriggerGET f t n) =
           p\<lparr>replies := replies p @ [Inr (JsonResult True ''Compilation already in progress'' None)]\<rparr> \<and>
         step env p (TriggerPOST t) =
           p\<lparr>replies := replies p @ [Inr (JsonResult True ''Compilation already in progress'' None)]\<rparr>) \<and>
      \<not> isCompiling (gate (step env p Settle)))"
proof -
  have closed: "isCompiling st \<longrightarrow>
      GET env f t n (st, w) =
        (Inr (JsonResult True ''Compilation already in progress'' None), st, w) \<and>
      POST env t (st, w) =
        (Inr (JsonResult True ''Compilation already in progress'' None), st, w)"
    by (simp add: GET_def POST_def GET_enter_closed POST_enter_closed)
  have released: "\<not> isCompiling st \<longrightarrow>
      \<not> isCompiling (fst (snd (GET env f t n (st, w)))) \<and>
      \<not> isCompiling (fst (snd (POST env t (st, w))))"
    by (simp add: GET_releases POST_releases)
  define p where "p = run env (boot w0) evs"
  have sf: "single_flight p"
    unfolding p_def by (rule single_flight_run) (rule single_flight_boot)
  have one: "length (suspended p) \<le> 1"
    using sf by (simp add: single_flight_def split: if_splits)
  have held: "isCompiling (gate p) \<longleftrightarrow> suspended p \<noteq> []"
    using sf by (auto simp: single_flight_def split: if_splits)
  have noop: "isCompiling (gate p) \<longrightarrow>
         step env p (TriggerGET f t n) =
           p\<lparr>replies := replies p @ [Inr (JsonResult True ''Compilation already in progress'' None)]\<rparr> \<and>
         step env p (TriggerPOST t) =
           p\<lparr>replies := replies p @ [Inr (JsonResult True ''Compilation already in progress'' None)]\<rparr>"
    by (simp add: GET_enter_closed POST_enter_closed)
  have opens: "\<not> isCompiling (gate (step env p Settle))"
    using sf by (rule settle_releases)
  show ?thesis
    unfolding Let_def p_def [symmetric]
    using closed released one held noop opens by blast
qed

theorem C1_single_flight_gate_witness:
  "GET failing_env True 2000 2000 (\<lparr>isCompiling = True, lastCompileTime = 1000\<rparr>, []) =
     (Inr (JsonResult True ''Compilation already in progress'' None),
      \<lparr>isCompiling = True, lastCompileTime = 1000\<rparr>, []) \<and>
   POST failing_env 2000 (\<lparr>isCompiling = True, lastCompileTime = 1000\<rparr>, []) =
     (Inr (JsonResult True ''Compilation already in progress'' None),
      \<lparr>isCompiling = True, lastCompileTime = 1000\<rparr>, []) \<and>
   isCompiling (gate (run failing_env (boot []) [TriggerPOST 1000])) \<and>
   step failing_env (run failing_env (boot []) [TriggerPOST 1000]) (TriggerGET True 2000 2000) =
     (run failing_env (boot []) [TriggerPOST 1000])
       \<lparr>replies := [Inr (JsonResult True ''Compilation already in progress'' None)]\<rparr> \<and>
   \<not> isCompiling (gate (step failing_env (run failing_env (boot []) [TriggerPOST 1000]) Settle)) \<and>
   replies (step failing_env (run failing_env (boot []) [TriggerPOST 1000]) Settle) =
     [Inl (HttpError 500 ''Compilation process failed: Collection compilation failed: boom'')]"
  using C1_single_flight_gate
    [of "\<lparr>isCompiling = True, lastCompileTime = 1000\<rparr>" failing_env True 2000 2000 "[]" "[]"
        "[TriggerPOST 1000]"]
  by (simp add: run_def boot_def initial_state_def POST_enter_def POST_exit_def needsCompile_def
      run_pass_def failing_env_def Let_def)

text \<open>
  Claim C9. A non-forced GET trigger that finds the gate open and
  \<open>now - lastCompileTime\<close> below the cooldown returns the success result "Compilation
  skipped due to cooldown"; \<open>isCompiling\<close>, \<open>lastCompileTime\<close> and the world are unchanged.
\<close>

theorem C9_cooldown_skip:
  assumes "\<not> isCompiling st" and "t - lastCompileTime st < COMPILE_COOLDOWN"
  shows "GET env False t n (st, w) =
           (Inr (JsonResult True ''Compilation skipped due to cooldown'' None), st, w)"
  using assms by (simp add: GET_def GET_enter_def)

theorem C9_cooldown_skip_witness:
  "GET logging_env False 130000 130000 (\<lparr>isCompiling = False, lastCompileTime = 100000\<rparr>, []) =
     (Inr (JsonResult True ''Compilation skipped due to cooldown'' None),
      \<lparr>isCompiling = False, lastCompileTime = 100000\<rparr>, [])"
  using C9_cooldown_skip
    [of "\<lparr>isCompiling = False, lastCompileTime = 100000\<rparr>" 130000 logging_env 130000 "[]"]
  by (simp add: COMPILE_COOLDOWN_def)

lemma GET_unforced_skips_compile:
  assumes "\<not> isCompiling st" and "nowH - currentTime \<le> COMPILE_COOLDOWN"
    and "\<not> currentTime - lastCompileTime st < COMPILE_COOLDOWN"
  shows "snd (snd (GET env False currentTime nowH (st, w))) = snd (updateCollections env False w)"
  using assms
  by (simp add: GET_def GET_enter_def GET_exit_def run_pass_def needsCompile_def Let_def
      split: prod.split option.split)

text \<open>
  Claim C2. A non-forced trigger that passes the gate and the cooldown check sets
  \<open>isCompiling\<close> and stores the trigger time in \<open>lastCompileTime\<close> before it calls
  \<open>handleCompilation\<close>, whose own test \<open>Date.now() - lastCompileTime > COMPILE_COOLDOWN\<close>
  then compares the clock with the time just stored. Unless more than the cooldown
  passes between the two readings of the clock, \<open>compile\<close> is not called and the pass
  consists of the registry reload alone.
\<close>

theorem C2_unforced_pass_runs_no_compile:
  "GET logging_env False 1700000000000 1700000000000 (initial_state, []) =
     (Inr (JsonResult True ''Compilation and collection update completed'' (Some 1700000000000)),
      \<lparr>isCompiling = False, lastCompileTime = 1700000000000\<rparr>,
      [CallUpdate False]) \<and>
   GET_enter False 1700000000000 1700000000000 initial_state =
     (Awaiting False, \<lparr>isCompiling = True, lastCompileTime = 1700000000000\<rparr>) \<and>
   POST logging_env 1700000000000 (initial_state, []) =
     (Inr (JsonResult True ''Forced compilation and collection update completed''
             (Some 1700000000000)),
      \<lparr>isCompiling = False, lastCompileTime = 1700000000000\<rparr>,
      [CallCompile, CallUpdate True])"
  by (simp add: GET_def GET_enter_def GET_exit_def POST_def POST_enter_def POST_exit_def
      run_pass_def needsCompile_def initial_state_def COMPILE_COOLDOWN_def logging_env_def
      Let_def)

section \<open>Properties of the compiler\<close>

lemma first_line_header:
  "newline \<notin> set h \<Longrightarrow> first_line (''// '' @ h @ [newline] @ code) = ''// '' @ h"
  by (simp add: first_line_def takeWhile_append)

lemma hex_digest_one_line: "hex_digest h \<Longrightarrow> newline \<notin> set h"
  unfolding hex_digest_def list_all_iff by fastforce

lemma getExistingHash_written:
  assumes "hex_digest (md5 tc orig)"
  shows "getExistingHash (writeCompiledFile tc now fs p code orig) p = Some (md5 tc orig)"
proof -
  have "first_line (''// '' @ md5 tc orig @ [newline] @ code) = ''// '' @ md5 tc orig"
    using assms by (intro first_line_header hex_digest_one_line)
  then show ?thesis
    by (simp add: getExistingHash_def writeCompiledFile_def readFile_def getContentHash_def)
qed

lemma shouldRecompile_eq:
  "shouldRecompile tc fs ts js =
     Inr (case fs js of
            None \<Rightarrow> True
          | Some a \<Rightarrow>
              (case fs ts of
                 None \<Rightarrow> False
               | Some s \<Rightarrow>
                   getExistingHash fs js \<noteq> Some (md5 tc (content s)) \<or> mtime a < mtime s))"
  by (auto simp add: shouldRecompile_def stat_def getFileHash_def readFile_def split: option.split)

lemma compile_all_up_to_date:
  assumes "\<forall>f \<in> set files. \<exists>s a.
      fs (path_join src f) = Some s \<and> fs (path_join dest (js_name f)) = Some a \<and>
      getExistingHash fs (path_join dest (js_name f)) = Some (md5 tc (content s)) \<and>
      mtime s \<le> mtime a"
  shows "compile_all tc now src dest files (fs, cache) = (None, fs, cache)"
  using assms
proof (induction files)
  case Nil
  then show ?case by simp
next
  case (Cons f rest)
  then obtain s a where "fs (path_join src f) = Some s"
    and "fs (path_join dest (js_name f)) = Some a"
    and "getExistingHash fs (path_join dest (js_name f)) = Some (md5 tc (content s))"
    and "mtime s \<le> mtime a"
    by auto
  then have "compileFile tc now f src dest (fs, cache) = (None, fs, cache)"
    by (simp add: compileFile_def shouldRecompile_eq Let_def)
  with Cons show ?case by simp
qed

text \<open>
  Claim C3. \<open>shouldRecompile\<close> always returns, and it returns true exactly when the
  artifact does not exist, or source and artifact both exist and either the hash read
  from the artifact's first line differs from the hash of the source's current content
  or the source's modification time is later than the artifact's. When the source is
  gone and the artifact is there it returns false. For a source whose artifact carries
  the hash of its current content and is not older than it, \<open>compileFile\<close> resolves
  and leaves the files and the memo as they were: nothing is written.
\<close>

theorem C3_shouldRecompile:
  "(shouldRecompile tc fs ts js = Inr True \<or> shouldRecompile tc fs ts js = Inr False) \<and>
   (shouldRecompile tc fs ts js = Inr True \<longleftrightarrow>
      fs js = None \<or>
      (\<exists>s a. fs ts = Some s \<and> fs js = Some a \<and>
         (getExistingHash fs js \<noteq> Some (md5 tc (content s)) \<or> mtime s > mtime a))) \<and>
   (fs ts = None \<and> fs js \<noteq> None \<longrightarrow> shouldRecompile tc fs ts js = Inr False) \<and>
   (\<forall>s a. fs (path_join src f) = Some s \<and> fs (path_join dest (js_name f)) = Some a \<and>
      getExistingHash fs (path_join dest (js_name f)) = Some (md5 tc (content s)) \<and>
      mtime s \<le> mtime a \<longrightarrow>
      compileFile tc now f src dest (fs, cache) = (None, fs, cache))"
proof -
  have total: "shouldRecompile tc fs ts js = Inr True \<or> shouldRecompile tc fs ts js = Inr False"
    by (simp add: shouldRecompile_eq)
  have iff: "shouldRecompile tc fs ts js = Inr True \<longleftrightarrow>
      fs js = None \<or>
      (\<exists>s a. fs ts = Some s \<and> fs js = Some a \<and>
         (getExistingHash fs js \<noteq> Some (md5 tc (content s)) \<or> mtime s > mtime a))"
    by (auto simp add: shouldRecompile_eq split: option.splits)
  have gone: "fs ts = None \<and> fs js \<noteq> None \<longrightarrow> shouldRecompile tc fs ts js = Inr False"
    by (auto simp add: shouldRecompile_eq)
  have skip: "\<forall>s a. fs (path_join src f) = Some s \<and> fs (path_join dest (js_name f)) = Some a \<and>
      getExistingHash fs (path_join dest (js_name f)) = Some (md5 tc (content s)) \<and>
      mtime s \<le> mtime a \<longrightarrow>
      compileFile tc now f src dest (fs, cache) = (None, fs, cache)"
    by (auto simp add: compileFile_def shouldRecompile_eq Let_def)
  from total iff gone skip show ?thesis by blast
qed

theorem C3_shouldRecompile_witness:
  "compileFile sample_tc 300 ''a.ts'' ''src'' ''out'' (sample_fs, Map.empty) =
     (None, sample_fs, Map.empty) \<and>
   shouldRecompile sample_tc sample_fs ''src/gone.ts'' ''out/a.js'' = Inr False"
proof -
  have src: "sample_fs (path_join ''src'' ''a.ts'') =
      Some \<lparr>content = ''export const schema = 1;'', mtime = 100\<rparr>"
    by (simp add: sample_fs_def path_join_def)
  have art: "sample_fs (path_join ''out'' (js_name ''a.ts'')) =
      Some \<lparr>content = ''// 81027386c17bae57d35cbbfd5316ddc5'' @ [newline]
                @ ''export const schema = 1;'' @ [newline], mtime = 200\<rparr>"
    by (simp add: sample_fs_def path_join_def js_name_def suffix_to_prefix)
  have emb: "getExistingHash sample_fs (path_join ''out'' (js_name ''a.ts'')) =
      Some (md5 sample_tc ''export const schema = 1;'')"
    by (simp add: getExistingHash_def readFile_def art first_line_def sample_tc_def
        sample_md5_def)
  have gone: "sample_fs ''src/gone.ts'' = None \<and> sample_fs ''out/a.js'' \<noteq> None"
    by (simp add: sample_fs_def)
  have "compileFile sample_tc 300 ''a.ts'' ''src'' ''out'' (sample_fs, Map.empty) =
      (None, sample_fs, Map.empty)"
    using C3_shouldRecompile
      [of sample_tc sample_fs "''src/a.ts''" "''out/a.js''" "''src''" "''a.ts''" "''out''" 300
          Map.empty]
      src art emb
    by simp
  moreover have "shouldRecompile sample_tc sample_fs ''src/gone.ts'' ''out/a.js'' = Inr False"
    using C3_shouldRecompile [of sample_tc sample_fs "''src/gone.ts''" "''out/a.js''"] gone
    by blast
  ultimately show ?thesis by simp
qed

text \<open>
  Claim C4. \<open>writeCompiledFile\<close> leaves at the output path a file whose content is
  \<open>// \<close>, the hash of the original source, a line feed, and the code. When that hash is a
  hex digest, \<open>getExistingHash\<close> on the written file returns it. Hence when \<open>compileFile\<close>
  finds a source stale it resolves, and the hash in the artifact it leaves is the hash of
  the content it read.
\<close>

theorem C4_embedded_hash_roundtrip:
  "readFile (writeCompiledFile tc now fs p code orig) p =
     Inr (''// '' @ md5 tc orig @ [newline] @ code) \<and>
   (hex_digest (md5 tc orig) \<longrightarrow>
      getExistingHash (writeCompiledFile tc now fs p code orig) p = Some (md5 tc orig)) \<and>
   (\<forall>s. fs (path_join src f) = Some s \<and> hex_digest (md5 tc (content s)) \<and>
      shouldRecompile tc fs (path_join src f) (path_join dest (js_name f)) = Inr True \<longrightarrow>
      fst (compileFile tc now f src dest (fs, cache)) = None \<and>
      getExistingHash (fst (snd (compileFile tc now f src dest (fs, cache))))
        (path_join dest (js_name f)) = Some (md5 tc (content s)))"
proof -
  have written: "readFile (writeCompiledFile tc now fs p code orig) p =
     Inr (''// '' @ md5 tc orig @ [newline] @ code)"
    by (simp add: readFile_def writeCompiledFile_def getContentHash_def)
  have reread: "hex_digest (md5 tc orig) \<longrightarrow>
      getExistingHash (writeCompiledFile tc now fs p code orig) p = Some (md5 tc orig)"
    by (simp add: getExistingHash_written)
  have pass: "\<forall>s. fs (path_join src f) = Some s \<and> hex_digest (md5 tc (content s)) \<and>
      shouldRecompile tc fs (path_join src f) (path_join dest (js_name f)) = Inr True \<longrightarrow>
      fst (compileFile tc now f src dest (fs, cache)) = None \<and>
      getExistingHash (fst (snd (compileFile tc now f src dest (fs, cache))))
        (path_join dest (js_name f)) = Some (md5 tc (content s))"
    by (auto simp add: compileFile_def Let_def readFile_def getExistingHash_written
        split: prod.split)
  from written reread pass show ?thesis by blast
qed

theorem C4_embedded_hash_roundtrip_witness:
  "getExistingHash
     (writeCompiledFile sample_tc 300 sample_fs ''out/b.js'' ''export const schema = 2;''
        ''export const schema = 2;'') ''out/b.js'' = Some ''d66f74d8d819723d9e16601d1d7bc9ba'' \<and>
   fst (compileFile sample_tc 300 ''b.ts'' ''src'' ''out'' (sample_fs, Map.empty)) = None \<and>
   getExistingHash (fst (snd (compileFile sample_tc 300 ''b.ts'' ''src'' ''out'' (sample_fs, Map.empty))))
     ''out/b.js'' = Some ''d66f74d8d819723d9e16601d1d7bc9ba''"
proof -
  have h: "hex_digest (md5 sample_tc ''export const schema = 2;'')"
    by (simp add: sample_tc_def sample_md5_def hex_digest_def)
  have m: "md5 sample_tc ''export const schema = 2;'' = ''d66f74d8d819723d9e16601d1d7bc9ba''"
    by (simp add: sample_tc_def sample_md5_def)
  have src: "sample_fs (path_join ''src'' ''b.ts'') =
      Some \<lparr>content = ''export const schema = 2;'', mtime = 250\<rparr>"
    by (simp add: sample_fs_def path_join_def)
  have st: "shouldRecompile sample_tc sample_fs (path_join ''src'' ''b.ts'')
      (path_join ''out'' (js_name ''b.ts'')) = Inr True"
    by (simp add: shouldRecompile_eq sample_fs_def path_join_def js_name_def suffix_to_prefix
        getExistingHash_def readFile_def first_line_def sample_tc_def sample_md5_def)
  have js: "path_join ''out'' (js_name ''b.ts'') = ''out/b.js''"
    by (simp add: path_join_def js_name_def suffix_to_prefix)
  show ?thesis
    using C4_embedded_hash_roundtrip
      [of sample_tc 300 sample_fs "''out/b.js''" "''export const schema = 2;''"
          "''export const schema = 2;''" "''src''" "''b.ts''" "''out''" Map.empty]
      h m src st js
    by simp
qed

text \<open>
  Claim C7, as the code has it. The memo is keyed by path and consulted by truthiness.
  If the first call for a path returns a non-empty string, a second call for the same
  path with any content returns that same string and leaves the memo as it is. The
  string of the first call is the transform of its content when the memo held nothing,
  or the empty string, for the path; it is the memoized string when the memo held a
  non-empty one.
\<close>

theorem C7_memo_by_path:
  "(fst (transpileCode tc cache c1 p) \<noteq> [] \<longrightarrow>
      transpileCode tc (snd (transpileCode tc cache c1 p)) c2 p = transpileCode tc cache c1 p) \<and>
   (cache p = None \<or> cache p = Some [] \<longrightarrow>
      transpileCode tc cache c1 p = (transform tc c1, cache(p \<mapsto> transform tc c1))) \<and>
   (\<forall>code. cache p = Some code \<and> code \<noteq> [] \<longrightarrow> transpileCode tc cache c1 p = (code, cache))"
  by (auto simp add: transpileCode_def split: option.split)

theorem C7_memo_by_path_witness:
  "transpileCode sample_tc Map.empty ''export const schema = 1;'' ''src/a.ts'' =
     (''export const schema = 1;'' @ [newline],
      [''src/a.ts'' \<mapsto> ''export const schema = 1;'' @ [newline]]) \<and>
   transpileCode sample_tc
     (snd (transpileCode sample_tc Map.empty ''export const schema = 1;'' ''src/a.ts''))
     ''export const schema = 2;'' ''src/a.ts'' =
     (''export const schema = 1;'' @ [newline],
      [''src/a.ts'' \<mapsto> ''export const schema = 1;'' @ [newline]])"
  using C7_memo_by_path
    [of sample_tc Map.empty "''export const schema = 1;''" "''src/a.ts''"
        "''export const schema = 2;''"]
  by (simp add: transpileCode_def sample_tc_def sample_transform_def)

text \<open>
  Claim C7 as stated fails at two inputs. With a memo that already holds a string for
  the path, the first call returns that string, which is not the transform of the first
  content. With an empty memo and an empty first content, whose transform is empty, the
  second call transforms the second content and returns a string other than the first
  call's.
\<close>

theorem C7_counterexample:
  "''export const schema = 1;'' \<noteq> ''export const schema = 2;'' \<and>
   fst (transpileCode sample_tc [''src/a.ts'' \<mapsto> ''export const schema = 0;'' @ [newline]]
          ''export const schema = 1;'' ''src/a.ts'') \<noteq>
     transform sample_tc ''export const schema = 1;'' \<and>
   [] \<noteq> ''export const schema = 2;'' \<and>
   fst (transpileCode sample_tc (snd (transpileCode sample_tc Map.empty [] ''src/a.ts''))
          ''export const schema = 2;'' ''src/a.ts'') \<noteq>
     fst (transpileCode sample_tc Map.empty [] ''src/a.ts'')"
  by (simp add: transpileCode_def sample_tc_def sample_transform_def)

section \<open>Properties of the collections read endpoint\<close>

lemma caught_is_500: "\<exists>m. caught srv t = HttpError 500 m"
  by (simp add: caught_def)

lemma collections_GET_fault_is_500:
  assumes "fst (collections_GET srv getCache setCache action name tier) = Inl (HttpError status m)"
  shows "status = 500"
  using assms
  by (auto simp add: collections_GET_def Let_def caught_def
      split: sum.splits option.splits if_splits prod.splits)

lemma collections_GET_rejected_read:
  assumes "\<not> browser srv" and "redisEnabled srv" and "getCache tier (cacheKey action name) = Inl e"
  shows "fst (collections_GET srv getCache setCache action name tier) =
           Inl (HttpError 500 (''Failed to process collections request: '' @ e))"
  using assms by (simp add: collections_GET_def caught_def)

text \<open>
  Claim C5. With \<open>action=collection\<close> the handler throws \<open>error(400, ...)\<close> for an absent
  name and \<open>error(404, ...)\<close> for an unknown one, inside the \<open>try\<close> whose \<open>catch\<close> rethrows
  whatever it caught as \<open>error(500, ...)\<close>: both requests are answered with status 500.
  A known name is answered with its descriptor.
\<close>

theorem C5_collection_faults_answered_500:
  "collections_GET sample_server no_getCache no_setCache (Some ''collection'') None () =
     (Inl (HttpError 500 (''Failed to process collections request: ''
             @ stringOfKitError sample_server 400 ''Collection name is required'')), ()) \<and>
   collections_GET sample_server no_getCache no_setCache (Some ''collection'') (Some ''pages'') () =
     (Inl (HttpError 500 (''Failed to process collections request: ''
             @ stringOfKitError sample_server 404 ''Collection not found'')), ()) \<and>
   collections_GET sample_server no_getCache no_setCache (Some ''collection'') (Some ''posts'') () =
     (Inr (OneCollection (Collection ''posts'' ''mdi:post'' ''/posts'' ())), ())"
  by (simp add: collections_GET_def compute_response_def caught_def falsy_def sample_server_def)

text \<open>
  Claim C6, with the helpers of the distributed tier modelled from the spec. Unless the
  request is a cache hit (the tier is enabled, its read works and it holds an entry
  under the request's key), the answer is the one computed fresh from the registry and
  the folder: so it is when the tier is disabled, when its read fails, and when its
  write fails after a miss. The answer is then a fault only when the fresh computation
  itself throws; for the registry reads (structure, names and the default action) it
  never is. A cache hit is answered with the entry.
\<close>

theorem C6_cache_tier_degrades:
  "(browser srv \<or> \<not> redisEnabled srv \<or> readsFail tier
      \<or> entries tier (cacheKey action name) = None \<longrightarrow>
      fst (collections_GET srv redis_getCache redis_setCache action name tier) =
        (case compute_response srv action name of
           Inl t \<Rightarrow> Inl (caught srv t)
         | Inr response \<Rightarrow> Inr response)) \<and>
   (browser srv \<or> \<not> redisEnabled srv \<or> readsFail tier
      \<or> entries tier (cacheKey action name) = None \<longrightarrow>
      action \<noteq> Some ''files'' \<and> action \<noteq> Some ''file'' \<and> action \<noteq> Some ''collection'' \<longrightarrow>
      (\<exists>response. fst (collections_GET srv redis_getCache redis_setCache action name tier) =
         Inr response)) \<and>
   (\<forall>cached. \<not> browser srv \<and> redisEnabled srv \<and> \<not> readsFail tier
      \<and> entries tier (cacheKey action name) = Some cached \<longrightarrow>
      collections_GET srv redis_getCache redis_setCache action name tier = (Inr cached, tier))"
proof -
  have fresh: "browser srv \<or> \<not> redisEnabled srv \<or> readsFail tier
      \<or> entries tier (cacheKey action name) = None \<longrightarrow>
      fst (collections_GET srv redis_getCache redis_setCache action name tier) =
        (case compute_response srv action name of
           Inl t \<Rightarrow> Inl (caught srv t)
         | Inr response \<Rightarrow> Inr response)"
    by (auto simp add: collections_GET_def Let_def redis_getCache_def redis_setCache_def
        split: sum.splits)
  have registry: "action \<noteq> Some ''files'' \<and> action \<noteq> Some ''file'' \<and> action \<noteq> Some ''collection'' \<longrightarrow>
      (\<exists>response. compute_response srv action name = Inr response)"
    by (simp add: compute_response_def)
  have hit: "\<forall>cached. \<not> browser srv \<and> redisEnabled srv \<and> \<not> readsFail tier
      \<and> entries tier (cacheKey action name) = Some cached \<longrightarrow>
      collections_GET srv redis_getCache redis_setCache action name tier = (Inr cached, tier)"
    by (simp add: collections_GET_def redis_getCache_def)
  from fresh registry hit show ?thesis
    by (auto split: sum.splits)
qed

theorem C6_cache_tier_degrades_witness:
  "fst (collections_GET (sample_server\<lparr>redisEnabled := True\<rparr>) redis_getCache redis_setCache
          (Some ''names'') None
          \<lparr>readsFail = True, writesFail = True, entries = Map.empty\<rparr>) =
     Inr (Names [''posts''])"
  using C6_cache_tier_degrades
    [of "sample_server\<lparr>redisEnabled := True\<rparr>"
        "\<lparr>readsFail = True, writesFail = True, entries = Map.empty\<rparr>" "Some ''names''" None]
  by (simp add: compute_response_def sample_server_def)

lemma replace_word_slash:
  assumes "\<not> prefix kw (CHR ''/'' # cs)"
  shows "replace_word kw False 0 (CHR ''/'' # cs) = CHR ''/'' # replace_word kw False 0 cs"
  using assms by (simp add: is_word_def)

lemma sanitize_slash: "\<exists>r. sanitize (CHR ''/'' # cs) = CHR ''/'' # r"
  by (simp add: sanitize_def replace_word_slash)

lemma safeParse_fault:
  "safeParseCollectionFile P text = Inl e \<Longrightarrow> e = ''Invalid collection file format''"
  by (auto simp add: safeParseCollectionFile_def split: option.splits if_splits)

lemma safeParse_artifact:
  assumes "\<forall>t. P (CHR ''/'' # t) = None"
  shows "safeParseCollectionFile P (''// '' @ rest) = Inl ''Invalid collection file format''"
proof -
  obtain r where "sanitize (''// '' @ rest) = CHR ''/'' # r"
    using sanitize_slash [of "''/ '' @ rest"] by auto
  with assms show ?thesis
    by (simp add: safeParseCollectionFile_def)
qed

lemma processBatch_append:
  "processBatch P listing (xs @ ys) =
     (case processBatch P listing xs of
        Inl e \<Rightarrow> Inl e
      | Inr ms \<Rightarrow>
          (case processBatch P listing ys of Inl e \<Rightarrow> Inl e | Inr ms' \<Rightarrow> Inr (ms @ ms')))"
  by (induction xs) (auto split: sum.splits)

lemma processBatches_concat:
  "processBatches P listing bs = processBatch P listing (concat bs)"
  by (induction bs) (auto simp add: processBatch_append split: sum.splits)

lemma concat_batches: "concat (batches xs) = xs"
proof (induction xs rule: batches.induct)
  case (1 xs)
  show ?case
  proof (cases "xs = []")
    case True
    then show ?thesis by (subst batches.simps) simp
  next
    case False
    with "1" have "concat (batches (drop BATCH_SIZE xs)) = drop BATCH_SIZE xs" by simp
    with False show ?thesis by (subst batches.simps) simp
  qed
qed

lemma processBatch_one_bad:
  assumes "f \<in> set fs" and "set fs \<subseteq> fst ` set listing"
    and "map_of listing f = Some text"
    and "safeParseCollectionFile P text = Inl ''Invalid collection file format''"
  shows "processBatch P listing fs = Inl ''Invalid collection file format''"
  using assms
proof (induction fs)
  case Nil
  then show ?case by simp
next
  case (Cons g gs)
  from Cons.prems(2) obtain t where t: "map_of listing g = Some t"
    by (cases "map_of listing g") (auto simp add: map_of_eq_None_iff)
  show ?case
  proof (cases "safeParseCollectionFile P t")
    case (Inl e)
    then have "e = ''Invalid collection file format''" by (rule safeParse_fault)
    with Inl t show ?thesis by (simp add: readFolderFile_def)
  next
    case (Inr m)
    with Cons.prems t have "f \<in> set gs" by auto
    with Cons.IH Cons.prems have "processBatch P listing gs = Inl ''Invalid collection file format''"
      by simp
    with Inr t show ?thesis by (simp add: readFolderFile_def)
  qed
qed

lemma keyword_head:
  assumes "kw \<noteq> []" and "list_all is_word kw" and "\<not> is_word c"
  shows "\<not> prefix kw (c # cs)"
  using assms by (cases kw) auto

lemma replace_word_nonword:
  assumes "kw \<noteq> []" and "list_all is_word kw" and "\<not> is_word c"
  shows "replace_word kw b 0 (c # cs) = c # replace_word kw False 0 cs"
  using assms keyword_head [OF assms] by simp

lemma match_local:
  assumes kw: "kw \<noteq> []" "list_all is_word kw"
    and gap: "\<not> is_word (last (c # xs)) \<or> ys = [] \<or> \<not> is_word (hd ys)"
  shows "(prefix kw (c # xs @ ys) \<and> \<not> starts_with_word (drop (length kw) (c # xs @ ys))) \<longleftrightarrow>
         (prefix kw (c # xs) \<and> \<not> starts_with_word (drop (length kw) (c # xs)))"
proof -
  define zs where "zs = c # xs"
  have zs: "zs \<noteq> []" by (simp add: zs_def)
  have gap': "\<not> is_word (last zs) \<or> ys = [] \<or> \<not> is_word (hd ys)"
    using gap by (simp add: zs_def)
  have words: "\<And>x. x \<in> set kw \<Longrightarrow> is_word x"
    using kw(2) by (simp add: list_all_iff)
  consider (shorter) "length kw < length zs" | (same) "length kw = length zs"
    | (longer) "length kw > length zs"
    by linarith
  then have "(prefix kw (zs @ ys) \<and> \<not> starts_with_word (drop (length kw) (zs @ ys))) \<longleftrightarrow>
         (prefix kw zs \<and> \<not> starts_with_word (drop (length kw) zs))"
  proof cases
    case shorter
    then have p: "prefix kw (zs @ ys) \<longleftrightarrow> prefix kw zs"
      by (auto simp add: prefix_append)
    from shorter obtain a rest where d: "drop (length kw) zs = a # rest"
      by (cases "drop (length kw) zs") auto
    from shorter have "drop (length kw) (zs @ ys) = drop (length kw) zs @ ys" by simp
    with d have "starts_with_word (drop (length kw) (zs @ ys)) =
        starts_with_word (drop (length kw) zs)"
      by (simp add: starts_with_word_def)
    with p show ?thesis by simp
  next
    case same
    have q: "prefix kw zs \<longleftrightarrow> kw = zs"
    proof
      assume "prefix kw zs"
      then obtain u where "zs = kw @ u" by (auto simp add: prefix_def)
      with same show "kw = zs" by simp
    qed simp
    from same have p: "prefix kw (zs @ ys) \<longleftrightarrow> kw = zs"
      by (auto simp add: prefix_append q)
    have "\<not> starts_with_word ys" if e: "kw = zs"
    proof -
      from e zs have "last zs \<in> set kw" by simp
      then have "is_word (last zs)" by (rule words)
      with gap' show ?thesis by (cases ys) (auto simp add: starts_with_word_def)
    qed
    with p q same show ?thesis by (auto simp add: starts_with_word_def)
  next
    case longer
    then have n: "\<not> prefix kw zs"
      using prefix_length_le by fastforce
    have "\<not> prefix kw (zs @ ys)"
    proof
      assume "prefix kw (zs @ ys)"
      with n obtain us where us: "kw = zs @ us" "prefix us ys"
        by (auto simp add: prefix_append)
      with longer have une: "us \<noteq> []" by auto
      from us(1) zs have "last zs \<in> set kw" by simp
      then have "is_word (last zs)" by (rule words)
      moreover from us(2) une have "ys \<noteq> []" by auto
      moreover from us une have "hd ys = hd us"
        by (cases us) (auto simp add: prefix_def)
      moreover from us(1) une have "hd us \<in> set kw" by simp
      then have "is_word (hd us)" by (rule words)
      ultimately show False using gap' by auto
    qed
    with n show ?thesis by simp
  qed
  then show ?thesis by (simp add: zs_def)
qed

lemma match_fits:
  assumes "kw \<noteq> []" and "list_all is_word kw" and "prefix kw (c # xs)"
  shows "length kw - 1 \<le> length xs"
  using assms prefix_length_le by fastforce

lemma replace_word_split:
  assumes kw: "kw \<noteq> []" "list_all is_word kw"
  shows "skip \<le> length xs \<Longrightarrow>
         (xs = [] \<longrightarrow> \<not> b \<or> ys = [] \<or> \<not> is_word (hd ys)) \<Longrightarrow>
         (xs \<noteq> [] \<longrightarrow> \<not> is_word (last xs) \<or> ys = [] \<or> \<not> is_word (hd ys)) \<Longrightarrow>
         replace_word kw b skip (xs @ ys) =
           replace_word kw b skip xs @ replace_word kw False 0 ys"
proof (induction xs arbitrary: b skip)
  case Nil
  show ?case
  proof (cases "b \<and> ys \<noteq> []")
    case False
    with Nil show ?thesis by auto
  next
    case True
    with Nil obtain c cs where ys: "ys = c # cs" and nw: "\<not> is_word c"
      by (cases ys) auto
    have "replace_word kw b 0 (c # cs) = replace_word kw False 0 (c # cs)"
      by (simp only: replace_word_nonword [OF kw nw])
    with Nil ys show ?thesis by (simp del: replace_word.simps(2))
  qed
next
  case (Cons c xs)
  have next_ctx: "xs = [] \<longrightarrow> \<not> is_word c \<or> ys = [] \<or> \<not> is_word (hd ys)"
    using Cons.prems(3) by auto
  have next_gap: "xs \<noteq> [] \<longrightarrow> \<not> is_word (last xs) \<or> ys = [] \<or> \<not> is_word (hd ys)"
    using Cons.prems(3) by auto
  show ?case
  proof (cases "skip > 0")
    case True
    with Cons.prems(1) have "skip - 1 \<le> length xs" by simp
    from Cons.IH [OF this next_ctx next_gap] True show ?thesis by simp
  next
    case False
    then have skip0: "skip = 0" by simp
    have gap: "\<not> is_word (last (c # xs)) \<or> ys = [] \<or> \<not> is_word (hd ys)"
      using Cons.prems(3) by simp
    note m = match_local [OF kw gap]
    show ?thesis
    proof (cases "\<not> b \<and> prefix kw (c # xs) \<and> \<not> starts_with_word (drop (length kw) (c # xs))")
      case True
      then have "length kw - 1 \<le> length xs" using match_fits [OF kw] by blast
      from Cons.IH [OF this next_ctx next_gap] True m skip0 show ?thesis by simp
    next
      case False
      have "0 \<le> length xs" by simp
      from Cons.IH [OF this next_ctx next_gap] False m skip0 show ?thesis by auto
    qed
  qed
qed

lemma replace_word_split_left:
  assumes "kw \<noteq> []" and "list_all is_word kw" and "xs = [] \<or> \<not> is_word (last xs)"
  shows "replace_word kw False 0 (xs @ ys) =
           replace_word kw False 0 xs @ replace_word kw False 0 ys"
  using assms(3) by (intro replace_word_split [OF assms(1,2)]) auto

lemma replace_word_split_right:
  assumes "kw \<noteq> []" and "list_all is_word kw" and "ys = [] \<or> \<not> is_word (hd ys)"
  shows "replace_word kw False 0 (xs @ ys) =
           replace_word kw False 0 xs @ replace_word kw False 0 ys"
  using assms(3) by (intro replace_word_split [OF assms(1,2)]) auto

lemma replace_word_keeps_end:
  assumes "kw \<noteq> []" and "list_all is_word kw" and "xs = [] \<or> \<not> is_word (last xs)"
  shows "replace_word kw False 0 xs = [] \<or> \<not> is_word (last (replace_word kw False 0 xs))"
proof (cases "xs = []")
  case True
  then show ?thesis by simp
next
  case False
  with assms(3) have nw: "\<not> is_word (last xs)" by simp
  from False have "xs = butlast xs @ [last xs]" by simp
  then have "replace_word kw False 0 xs =
      replace_word kw False 0 (butlast xs @ [last xs])" by simp
  also have "\<dots> = replace_word kw False 0 (butlast xs) @ replace_word kw False 0 [last xs]"
    using nw by (intro replace_word_split_right [OF assms(1,2)]) simp
  also have "replace_word kw False 0 [last xs] = [last xs]"
    using replace_word_nonword [OF assms(1,2) nw, of False "[]"] by simp
  finally show ?thesis using nw by simp
qed

lemma replace_word_keeps_start:
  assumes "kw \<noteq> []" and "list_all is_word kw" and "ys = [] \<or> \<not> is_word (hd ys)"
  shows "replace_word kw False 0 ys = [] \<or> \<not> is_word (hd (replace_word kw False 0 ys))"
proof (cases ys)
  case Nil
  then show ?thesis by simp
next
  case (Cons c cs)
  with assms(3) have nw: "\<not> is_word c" by simp
  from replace_word_nonword [OF assms(1,2) nw, of False cs] Cons nw show ?thesis by simp
qed

lemma reserved_words_are_words:
  "kw \<in> set reserved_words \<Longrightarrow> kw \<noteq> [] \<and> list_all is_word kw"
  by (auto simp add: reserved_words_def is_word_def)

lemma sanitize_split_left:
  assumes "xs = [] \<or> \<not> is_word (last xs)"
  shows "sanitize (xs @ ys) = sanitize xs @ sanitize ys"
proof -
  have f: "''function'' \<noteq> [] \<and> list_all is_word ''function''"
    and e: "''eval'' \<noteq> [] \<and> list_all is_word ''eval''"
    and n: "''new'' \<noteq> [] \<and> list_all is_word ''new''"
    and c: "''class'' \<noteq> [] \<and> list_all is_word ''class''"
    by (simp_all add: is_word_def)
  define x1 where "x1 = replace_word ''function'' False 0 xs"
  define x2 where "x2 = replace_word ''eval'' False 0 x1"
  define x3 where "x3 = replace_word ''new'' False 0 x2"
  have g1: "x1 = [] \<or> \<not> is_word (last x1)"
    unfolding x1_def using f assms by (intro replace_word_keeps_end) simp_all
  have g2: "x2 = [] \<or> \<not> is_word (last x2)"
    unfolding x2_def using e g1 by (intro replace_word_keeps_end) simp_all
  have g3: "x3 = [] \<or> \<not> is_word (last x3)"
    unfolding x3_def using n g2 by (intro replace_word_keeps_end) simp_all
  have s1: "replace_word ''function'' False 0 (xs @ ys) =
      x1 @ replace_word ''function'' False 0 ys"
    unfolding x1_def using f assms by (intro replace_word_split_left) simp_all
  have s2: "replace_word ''eval'' False 0 (x1 @ replace_word ''function'' False 0 ys) =
      x2 @ replace_word ''eval'' False 0 (replace_word ''function'' False 0 ys)"
    unfolding x2_def using e g1 by (intro replace_word_split_left) simp_all
  have s3: "replace_word ''new'' False 0
        (x2 @ replace_word ''eval'' False 0 (replace_word ''function'' False 0 ys)) =
      x3 @ replace_word ''new'' False 0
        (replace_word ''eval'' False 0 (replace_word ''function'' False 0 ys))"
    unfolding x3_def using n g2 by (intro replace_word_split_left) simp_all
  have s4: "replace_word ''class'' False 0
        (x3 @ replace_word ''new'' False 0
          (replace_word ''eval'' False 0 (replace_word ''function'' False 0 ys))) =
      replace_word ''class'' False 0 x3 @ replace_word ''class'' False 0
        (replace_word ''new'' False 0
          (replace_word ''eval'' False 0 (replace_word ''function'' False 0 ys)))"
    using c g3 by (intro replace_word_split_left) simp_all
  show ?thesis
    unfolding sanitize_def s1 s2 s3 s4 by (simp only: x1_def x2_def x3_def)
qed

lemma sanitize_split_right:
  assumes "ys = [] \<or> \<not> is_word (hd ys)"
  shows "sanitize (xs @ ys) = sanitize xs @ sanitize ys"
proof -
  have f: "''function'' \<noteq> [] \<and> list_all is_word ''function''"
    and e: "''eval'' \<noteq> [] \<and> list_all is_word ''eval''"
    and n: "''new'' \<noteq> [] \<and> list_all is_word ''new''"
    and c: "''class'' \<noteq> [] \<and> list_all is_word ''class''"
    by (simp_all add: is_word_def)
  define y1 where "y1 = replace_word ''function'' False 0 ys"
  define y2 where "y2 = replace_word ''eval'' False 0 y1"
  define y3 where "y3 = replace_word ''new'' False 0 y2"
  have g1: "y1 = [] \<or> \<not> is_word (hd y1)"
    unfolding y1_def using f assms by (intro replace_word_keeps_start) simp_all
  have g2: "y2 = [] \<or> \<not> is_word (hd y2)"
    unfolding y2_def using e g1 by (intro replace_word_keeps_start) simp_all
  have g3: "y3 = [] \<or> \<not> is_word (hd y3)"
    unfolding y3_def using n g2 by (intro replace_word_keeps_start) simp_all
  have s1: "replace_word ''function'' False 0 (xs @ ys) =
      replace_word ''function'' False 0 xs @ y1"
    unfolding y1_def using f assms by (intro replace_word_split_right) simp_all
  have s2: "replace_word ''eval'' False 0 (replace_word ''function'' False 0 xs @ y1) =
      replace_word ''eval'' False 0 (replace_word ''function'' False 0 xs) @ y2"
    unfolding y2_def using e g1 by (intro replace_word_split_right) simp_all
  have s3: "replace_word ''new'' False 0
        (replace_word ''eval'' False 0 (replace_word ''function'' False 0 xs) @ y2) =
      replace_word ''new'' False 0
        (replace_word ''eval'' False 0 (replace_word ''function'' False 0 xs)) @ y3"
    unfolding y3_def using n g2 by (intro replace_word_split_right) simp_all
  have s4: "replace_word ''class'' False 0
        (replace_word ''new'' False 0
          (replace_word ''eval'' False 0 (replace_word ''function'' False 0 xs)) @ y3) =
      replace_word ''class'' False 0
        (replace_word ''new'' False 0
          (replace_word ''eval'' False 0 (replace_word ''function'' False 0 xs))) @
      replace_word ''class'' False 0 y3"
    using c g3 by (intro replace_word_split_right) simp_all
  show ?thesis
    unfolding sanitize_def s1 s2 s3 s4 by (simp only: y1_def y2_def y3_def)
qed

lemma sanitize_reserved_word:
  "kw \<in> set reserved_words \<Longrightarrow> sanitize kw = [dquote] @ kw @ [dquote]"
  by (auto simp add: reserved_words_def sanitize_def is_word_def starts_with_word_def)

lemma sanitize_whole_word:
  assumes "kw \<in> set reserved_words" and "whole_word pre post"
  shows "sanitize (pre @ kw @ post) = sanitize pre @ [dquote] @ kw @ [dquote] @ sanitize post"
proof -
  from assms(2) have l: "pre = [] \<or> \<not> is_word (last pre)"
    and r: "post = [] \<or> \<not> is_word (hd post)"
    by (simp_all add: whole_word_def)
  have "sanitize (pre @ kw @ post) = sanitize pre @ sanitize (kw @ post)"
    using l by (rule sanitize_split_left)
  also have "sanitize (kw @ post) = sanitize kw @ sanitize post"
    using r by (rule sanitize_split_right)
  finally show ?thesis using sanitize_reserved_word [OF assms(1)] by simp
qed

lemma replace_word_no_occurrence:
  assumes kw: "kw \<noteq> []" "list_all is_word kw"
  shows "(\<forall>pre post. seen @ t = pre @ kw @ post \<longrightarrow> \<not> whole_word pre post) \<Longrightarrow>
         b = (seen \<noteq> [] \<and> is_word (last seen)) \<Longrightarrow>
         replace_word kw b 0 t = t"
proof (induction t arbitrary: seen b)
  case Nil
  then show ?case by simp
next
  case (Cons c cs)
  have no_match: "\<not> (\<not> b \<and> prefix kw (c # cs)
      \<and> \<not> starts_with_word (drop (length kw) (c # cs)))"
  proof
    assume m: "\<not> b \<and> prefix kw (c # cs) \<and> \<not> starts_with_word (drop (length kw) (c # cs))"
    then obtain post where post: "c # cs = kw @ post" by (auto simp add: prefix_def)
    then have "drop (length kw) (c # cs) = post" by (metis append_eq_conv_conj)
    with m have "post = [] \<or> \<not> is_word (hd post)"
      by (cases post) (auto simp add: starts_with_word_def)
    moreover from m Cons.prems(2) have "seen = [] \<or> \<not> is_word (last seen)" by auto
    ultimately have "whole_word seen post" by (simp add: whole_word_def)
    moreover from post have "seen @ c # cs = seen @ kw @ post" by simp
    ultimately show False using Cons.prems(1) by blast
  qed
  have "replace_word kw (is_word c) 0 cs = cs"
  proof (rule Cons.IH [of "seen @ [c]"])
    show "\<forall>pre post. (seen @ [c]) @ cs = pre @ kw @ post \<longrightarrow> \<not> whole_word pre post"
      using Cons.prems(1) by simp
    show "is_word c = (seen @ [c] \<noteq> [] \<and> is_word (last (seen @ [c])))" by simp
  qed
  with no_match show ?case by auto
qed

lemma sanitize_no_occurrence:
  assumes "\<forall>kw pre post. kw \<in> set reserved_words \<and> body = pre @ kw @ post
             \<longrightarrow> \<not> whole_word pre post"
  shows "sanitize body = body"
proof -
  have one: "replace_word kw False 0 body = body" if "kw \<in> set reserved_words" for kw
  proof (rule replace_word_no_occurrence [of kw "[]"])
    from that show "kw \<noteq> []" "list_all is_word kw"
      using reserved_words_are_words by blast+
    show "\<forall>pre post. [] @ body = pre @ kw @ post \<longrightarrow> \<not> whole_word pre post"
      using assms that by simp
    show "False = ([] \<noteq> [] \<and> is_word (last []))" by simp
  qed
  have "replace_word ''function'' False 0 body = body" 
    and "replace_word ''eval'' False 0 body = body"
    and "replace_word ''new'' False 0 body = body" 
    and "replace_word ''class'' False 0 body = body"
    by (rule one, simp add: reserved_words_def)+
  then show ?thesis by (simp add: sanitize_def)
qed

lemma safeParse_served:
  "safeParseCollectionFile P body =
     (case served_module P body of
        None \<Rightarrow> Inl ''Invalid collection file format''
      | Some m \<Rightarrow> Inr m)"
  by (auto simp add: safeParseCollectionFile_def served_module_def split: option.split)

lemma processBatch_served:
  "set fs \<subseteq> fst ` set listing \<Longrightarrow>
   processBatch P listing fs =
     (case those (map (\<lambda>f. Option.bind (map_of listing f) (served_module P)) fs) of
        None \<Rightarrow> Inl ''Invalid collection file format''
      | Some ms \<Rightarrow> Inr ms)"
proof (induction fs)
  case Nil
  then show ?case by simp
next
  case (Cons g gs)
  from Cons.prems obtain t where t: "map_of listing g = Some t"
    by (cases "map_of listing g") (auto simp add: map_of_eq_None_iff)
  from Cons have IH: "processBatch P listing gs =
     (case those (map (\<lambda>f. Option.bind (map_of listing f) (served_module P)) gs) of
        None \<Rightarrow> Inl ''Invalid collection file format''
      | Some ms \<Rightarrow> Inr ms)"
    by simp
  show ?case
    by (simp add: readFolderFile_def t safeParse_served IH split: option.split)
qed

lemma collections_GET_uncached:
  assumes "browser srv \<or> \<not> redisEnabled srv"
  shows "fst (collections_GET srv getCache setCache action name tier) =
           (case compute_response srv action name of
              Inl t \<Rightarrow> Inl (caught srv t)
            | Inr response \<Rightarrow> Inr response)"
  using assms by (auto simp add: collections_GET_def split: sum.split)

lemma compute_response_file:
  assumes "folder srv = Some listing" and "n \<noteq> []" and "basename n \<noteq> ''..''"
    and "map_of listing (basename n) = Some body"
  shows "compute_response srv (Some ''file'') (Some n) =
           (case served_module (JSON_parse srv) body of
              None \<Rightarrow> Inl (JsError ''Invalid collection file format'')
            | Some m \<Rightarrow> Inr (FileModule m))"
  using assms
  by (simp add: compute_response_def falsy_def readFolderFile_def safeParse_served
      split: option.split)

lemma compute_response_files:
  assumes "folder srv = Some listing"
  shows "compute_response srv (Some ''files'') name =
           (case those (map (\<lambda>f. Option.bind (map_of listing f) (served_module (JSON_parse srv)))
                          (filter (\<lambda>f. suffix ''.js'' f) (map fst listing))) of
              None \<Rightarrow> Inl (JsError ''Invalid collection file format'')
            | Some ms \<Rightarrow> Inr (Files ms))"
proof -
  have "set (filter (\<lambda>f. suffix ''.js'' f) (map fst listing)) \<subseteq> fst ` set listing" by auto
  then show ?thesis
    using assms
    by (simp add: compute_response_def processBatches_concat concat_batches processBatch_served
        split: option.split)
qed

text \<open>
  Claim C10, as the code has it. The sanitizer puts each whole-word \<open>function\<close>, \<open>eval\<close>,
  \<open>new\<close> and \<open>class\<close> in double quotes, in four passes: a keyword standing as a whole
  word is quoted and the texts before and after it are sanitized on their own, and a
  text with no keyword standing as a whole word is left as it is.
  \<open>safeParseCollectionFile\<close> returns \<open>{default: parsed}\<close> exactly when \<open>JSON.parse\<close> accepts
  the sanitized text with an object or array; otherwise it throws "Invalid collection
  file format". With the cache tier off, \<open>action=file\<close> answers with that module when
  there is one and with the 500 fault when there is none; \<open>action=files\<close> answers with
  the modules of all \<open>.js\<close> files of the folder, in order, when each has one, and with the
  500 fault as soon as one has none. What is rejected is content whose sanitized text is
  not JSON for an object or array: content that is not JSON and holds no keyword as a
  whole word, and every text that begins with \<open>// \<close>, as the artifacts of the compiler
  do, whenever \<open>JSON.parse\<close> rejects texts beginning with a slash. Content that is not
  JSON but becomes JSON once its keywords are quoted is served.
\<close>

theorem C10_collection_files_parsed_as_json:
  "sanitize body =
     replace_word ''class'' False 0 (replace_word ''new'' False 0
       (replace_word ''eval'' False 0 (replace_word ''function'' False 0 body))) \<and>
   (kw \<in> set reserved_words \<and> whole_word pre post \<longrightarrow>
      sanitize (pre @ kw @ post) = sanitize pre @ [dquote] @ kw @ [dquote] @ sanitize post) \<and>
   ((\<forall>w l r. w \<in> set reserved_words \<and> body = l @ w @ r \<longrightarrow> \<not> whole_word l r) \<longrightarrow>
      sanitize body = body) \<and>
   ((\<exists>m. safeParseCollectionFile P body = Inr m) \<longleftrightarrow>
      (\<exists>v. P (sanitize body) = Some v \<and> typeof_object v \<and> v \<noteq> JNull)) \<and>
   (\<forall>v. P (sanitize body) = Some v \<and> typeof_object v \<and> v \<noteq> JNull \<longrightarrow>
      safeParseCollectionFile P body = Inr (JObj [(''default'', v)])) \<and>
   ((\<forall>m. safeParseCollectionFile P body \<noteq> Inr m) \<longrightarrow>
      safeParseCollectionFile P body = Inl ''Invalid collection file format'') \<and>
   ((\<forall>w l r. w \<in> set reserved_words \<and> body = l @ w @ r \<longrightarrow> \<not> whole_word l r) \<and>
    P body = None \<longrightarrow>
      safeParseCollectionFile P body = Inl ''Invalid collection file format'') \<and>
   ((\<forall>t. P (CHR ''/'' # t) = None) \<longrightarrow>
      safeParseCollectionFile P (''// '' @ h @ [newline] @ code) =
        Inl ''Invalid collection file format'') \<and>
   (\<forall>m. served_module P body = Some m \<longleftrightarrow>
      (\<exists>v. P (sanitize body) = Some v \<and> typeof_object v \<and> v \<noteq> JNull \<and>
           m = JObj [(''default'', v)])) \<and>
   ((browser srv \<or> \<not> redisEnabled srv) \<and> folder srv = Some listing \<and>
    n \<noteq> [] \<and> basename n \<noteq> ''..'' \<and> map_of listing (basename n) = Some body \<longrightarrow>
      fst (collections_GET srv getCache setCache (Some ''file'') (Some n) tier) =
        (case served_module (JSON_parse srv) body of
           None \<Rightarrow>
             Inl (HttpError 500
                    ''Failed to process collections request: Invalid collection file format'')
         | Some m \<Rightarrow> Inr (FileModule m))) \<and>
   ((browser srv \<or> \<not> redisEnabled srv) \<and> folder srv = Some listing \<longrightarrow>
      fst (collections_GET srv getCache setCache (Some ''files'') name tier) =
        (case those (map (\<lambda>f. Option.bind (map_of listing f) (served_module (JSON_parse srv)))
                       (filter (\<lambda>f. suffix ''.js'' f) (map fst listing))) of
           None \<Rightarrow>
             Inl (HttpError 500
                    ''Failed to process collections request: Invalid collection file format'')
         | Some ms \<Rightarrow> Inr (Files ms))) \<and>
   ((\<forall>t. JSON_parse srv (CHR ''/'' # t) = None) \<and> (browser srv \<or> \<not> redisEnabled srv) \<and>
    folder srv = Some listing \<and> n \<noteq> [] \<and> basename n \<noteq> ''..'' \<and>
    map_of listing (basename n) = Some (''// '' @ h @ [newline] @ code) \<longrightarrow>
      fst (collections_GET srv getCache setCache (Some ''file'') (Some n) tier) =
        Inl (HttpError 500 ''Failed to process collections request: Invalid collection file format'')) \<and>
   ((\<forall>t. JSON_parse srv (CHR ''/'' # t) = None) \<and> (browser srv \<or> \<not> redisEnabled srv) \<and>
    folder srv = Some listing \<and> suffix ''.js'' f \<and>
    map_of listing f = Some (''// '' @ h @ [newline] @ code) \<longrightarrow>
      fst (collections_GET srv getCache setCache (Some ''files'') name tier) =
        Inl (HttpError 500 ''Failed to process collections request: Invalid collection file format''))"
proof -
  have passes: "sanitize body =
     replace_word ''class'' False 0 (replace_word ''new'' False 0
       (replace_word ''eval'' False 0 (replace_word ''function'' False 0 body)))"
    by (simp add: sanitize_def)
  have quoted: "kw \<in> set reserved_words \<and> whole_word pre post \<longrightarrow>
      sanitize (pre @ kw @ post) = sanitize pre @ [dquote] @ kw @ [dquote] @ sanitize post"
    using sanitize_whole_word by blast
  have kept: "(\<forall>w l r. w \<in> set reserved_words \<and> body = l @ w @ r \<longrightarrow> \<not> whole_word l r) \<longrightarrow>
      sanitize body = body"
    using sanitize_no_occurrence [of body] by blast
  have accepted: "(\<exists>m. safeParseCollectionFile P body = Inr m) \<longleftrightarrow>
      (\<exists>v. P (sanitize body) = Some v \<and> typeof_object v \<and> v \<noteq> JNull)"
    by (auto simp add: safeParseCollectionFile_def split: option.splits if_splits)
  have wrapped: "\<forall>v. P (sanitize body) = Some v \<and> typeof_object v \<and> v \<noteq> JNull \<longrightarrow>
      safeParseCollectionFile P body = Inr (JObj [(''default'', v)])"
    by (simp add: safeParseCollectionFile_def)
  have rejected: "(\<forall>m. safeParseCollectionFile P body \<noteq> Inr m) \<longrightarrow>
      safeParseCollectionFile P body = Inl ''Invalid collection file format''"
    by (auto simp add: safeParseCollectionFile_def split: option.splits if_splits)
  have plain: "(\<forall>w l r. w \<in> set reserved_words \<and> body = l @ w @ r \<longrightarrow> \<not> whole_word l r) \<and>
    P body = None \<longrightarrow>
      safeParseCollectionFile P body = Inl ''Invalid collection file format''"
  proof (intro impI, elim conjE)
    assume free: "\<forall>w l r. w \<in> set reserved_words \<and> body = l @ w @ r \<longrightarrow> \<not> whole_word l r"
      and none: "P body = None"
    from free have "sanitize body = body" by (rule sanitize_no_occurrence)
    with none show "safeParseCollectionFile P body = Inl ''Invalid collection file format''"
      by (simp add: safeParseCollectionFile_def)
  qed
  have artifact: "(\<forall>t. P (CHR ''/'' # t) = None) \<longrightarrow>
      safeParseCollectionFile P (''// '' @ h @ [newline] @ code) =
        Inl ''Invalid collection file format''"
    using safeParse_artifact [of P "h @ [newline] @ code"] by simp
  have served: "\<forall>m. served_module P body = Some m \<longleftrightarrow>
      (\<exists>v. P (sanitize body) = Some v \<and> typeof_object v \<and> v \<noteq> JNull \<and>
           m = JObj [(''default'', v)])"
    by (auto simp add: served_module_def split: option.splits if_splits)
  have single: "(browser srv \<or> \<not> redisEnabled srv) \<and> folder srv = Some listing \<and>
    n \<noteq> [] \<and> basename n \<noteq> ''..'' \<and> map_of listing (basename n) = Some body \<longrightarrow>
      fst (collections_GET srv getCache setCache (Some ''file'') (Some n) tier) =
        (case served_module (JSON_parse srv) body of
           None \<Rightarrow>
             Inl (HttpError 500
                    ''Failed to process collections request: Invalid collection file format'')
         | Some m \<Rightarrow> Inr (FileModule m))"
    by (auto simp add: collections_GET_uncached compute_response_file caught_def
        split: option.split)
  have folder_all: "(browser srv \<or> \<not> redisEnabled srv) \<and> folder srv = Some listing \<longrightarrow>
      fst (collections_GET srv getCache setCache (Some ''files'') name tier) =
        (case those (map (\<lambda>f. Option.bind (map_of listing f) (served_module (JSON_parse srv)))
                       (filter (\<lambda>f. suffix ''.js'' f) (map fst listing))) of
           None \<Rightarrow>
             Inl (HttpError 500
                    ''Failed to process collections request: Invalid collection file format'')
         | Some ms \<Rightarrow> Inr (Files ms))"
    by (auto simp add: collections_GET_uncached compute_response_files caught_def
        split: option.split)
  have one: "(\<forall>t. JSON_parse srv (CHR ''/'' # t) = None) \<and> (browser srv \<or> \<not> redisEnabled srv) \<and>
    folder srv = Some listing \<and> n \<noteq> [] \<and> basename n \<noteq> ''..'' \<and>
    map_of listing (basename n) = Some (''// '' @ h @ [newline] @ code) \<longrightarrow>
      fst (collections_GET srv getCache setCache (Some ''file'') (Some n) tier) =
        Inl (HttpError 500 ''Failed to process collections request: Invalid collection file format'')"
  proof (intro impI, elim conjE)
    assume rej: "\<forall>t. JSON_parse srv (CHR ''/'' # t) = None"
      and off: "browser srv \<or> \<not> redisEnabled srv"
      and fo: "folder srv = Some listing" and n: "n \<noteq> []" "basename n \<noteq> ''..''"
      and at: "map_of listing (basename n) = Some (''// '' @ h @ [newline] @ code)"
    have "safeParseCollectionFile (JSON_parse srv) (''// '' @ h @ [newline] @ code) =
        Inl ''Invalid collection file format''"
      using rej by (rule safeParse_artifact)
    then have "compute_response srv (Some ''file'') (Some n) =
        Inl (JsError ''Invalid collection file format'')"
      using fo n at by (simp add: compute_response_def falsy_def readFolderFile_def)
    then show "fst (collections_GET srv getCache setCache (Some ''file'') (Some n) tier) =
        Inl (HttpError 500 ''Failed to process collections request: Invalid collection file format'')"
      using off by (auto simp add: collections_GET_def caught_def)
  qed
  have many: "(\<forall>t. JSON_parse srv (CHR ''/'' # t) = None) \<and> (browser srv \<or> \<not> redisEnabled srv) \<and>
    folder srv = Some listing \<and> suffix ''.js'' f \<and>
    map_of listing f = Some (''// '' @ h @ [newline] @ code) \<longrightarrow>
      fst (collections_GET srv getCache setCache (Some ''files'') name tier) =
        Inl (HttpError 500 ''Failed to process collections request: Invalid collection file format'')"
  proof (intro impI, elim conjE)
    assume rej: "\<forall>t. JSON_parse srv (CHR ''/'' # t) = None"
      and off: "browser srv \<or> \<not> redisEnabled srv"
      and fo: "folder srv = Some listing" and js: "suffix ''.js'' f"
      and at: "map_of listing f = Some (''// '' @ h @ [newline] @ code)"
    let ?names = "filter (\<lambda>f. suffix ''.js'' f) (map fst listing)"
    have bad: "safeParseCollectionFile (JSON_parse srv) (''// '' @ h @ [newline] @ code) =
        Inl ''Invalid collection file format''"
      using rej by (rule safeParse_artifact)
    from at have "f \<in> fst ` set listing"
      by (metis map_of_eq_None_iff option.distinct(1))
    with js have mem: "f \<in> set ?names" by auto
    have sub: "set ?names \<subseteq> fst ` set listing" by auto
    have "processBatch (JSON_parse srv) listing ?names = Inl ''Invalid collection file format''"
      using mem sub at bad by (rule processBatch_one_bad)
    then have "compute_response srv (Some ''files'') name =
        Inl (JsError ''Invalid collection file format'')"
      using fo by (simp add: compute_response_def processBatches_concat concat_batches)
    then show "fst (collections_GET srv getCache setCache (Some ''files'') name tier) =
        Inl (HttpError 500 ''Failed to process collections request: Invalid collection file format'')"
      using off by (auto simp add: collections_GET_def caught_def)
  qed
  from passes quoted kept accepted wrapped rejected plain artifact served single folder_all one many
  show ?thesis
    by (intro conjI)
qed

theorem C10_collection_files_parsed_as_json_witness:
  "sanitize ''(new)'' = ''('' @ [dquote] @ ''new'' @ [dquote] @ '')'' \<and>
   sanitize ''{}'' = ''{}'' \<and>
   safeParseCollectionFile sample_parse
     (''{'' @ [dquote] @ ''widget'' @ [dquote] @ '': function}'') =
     Inr (JObj [(''default'', JObj [(''widget'', JStr ''function'')])]) \<and>
   fst (collections_GET sample_server no_getCache no_setCache (Some ''file'') (Some ''posts.json'') ()) =
     Inr (FileModule (JObj [(''default'', JObj [(''widget'', JStr ''function'')])])) \<and>
   fst (collections_GET json_server no_getCache no_setCache (Some ''files'') None ()) =
     Inr (Files [JObj [(''default'', JObj [(''widget'', JStr ''function'')])],
                 JObj [(''default'', JObj [])]]) \<and>
   fst (collections_GET sample_server no_getCache no_setCache (Some ''file'') (Some ''posts.js'') ()) =
     Inl (HttpError 500 ''Failed to process collections request: Invalid collection file format'') \<and>
   fst (collections_GET sample_server no_getCache no_setCache (Some ''files'') None ()) =
     Inl (HttpError 500 ''Failed to process collections request: Invalid collection file format'')"
proof -
  let ?json = "''{'' @ [dquote] @ ''widget'' @ [dquote] @ '': function}''"
  let ?h = "''81027386c17bae57d35cbbfd5316ddc5''"
  let ?code = "''export const schema = 1;'' @ [newline]"
  let ?listing = "[(''posts.json'', ?json), (''posts.js'', ''// '' @ ?h @ [newline] @ ?code)]"
  let ?jlisting = "[(''posts.js'', ?json), (''notes.txt'', ''renew the news''), (''empty.js'', ''{}'')]"
  have rej: "\<forall>t. JSON_parse sample_server (CHR ''/'' # t) = None"
    by (simp add: sample_server_def sample_parse_def)
  have off: "browser sample_server \<or> \<not> redisEnabled sample_server"
    by (simp add: sample_server_def)
  have joff: "browser json_server \<or> \<not> redisEnabled json_server"
    by (simp add: json_server_def sample_server_def)
  have fo: "folder sample_server = Some ?listing"
    by (simp add: sample_server_def)
  have jfo: "folder json_server = Some ?jlisting"
    by (simp add: json_server_def)
  have jparse: "JSON_parse json_server = sample_parse" "JSON_parse sample_server = sample_parse"
    by (simp_all add: json_server_def sample_server_def)
  have bn: "basename ''posts.js'' = ''posts.js''" "basename ''posts.json'' = ''posts.json''"
    by (simp_all add: basename_def)
  have at: "map_of ?listing ''posts.js'' = Some (''// '' @ ?h @ [newline] @ ?code)"
    by simp
  have atj: "map_of ?listing ''posts.json'' = Some ?json"
    by simp
  have js: "suffix ''.js'' ''posts.js''"
    by (simp add: suffix_to_prefix)
  have san: "sanitize ?json =
      ''{'' @ [dquote] @ ''widget'' @ [dquote] @ '': '' @ [dquote] @ ''function'' @ [dquote] @ ''}''"
    by (simp add: sanitize_def is_word_def starts_with_word_def)
  have parsed: "sample_parse (sanitize ?json) = Some (JObj [(''widget'', JStr ''function'')])"
    unfolding san by (simp add: sample_parse_def)
  have module: "served_module sample_parse ?json =
      Some (JObj [(''default'', JObj [(''widget'', JStr ''function'')])])"
    using parsed by (simp add: served_module_def)
  have empty_module: "served_module sample_parse ''{}'' = Some (JObj [(''default'', JObj [])])"
    by (simp add: served_module_def sanitize_def sample_parse_def)
  have new_word: "''new'' \<in> set reserved_words \<and> whole_word ''('' '')''"
    by (simp add: reserved_words_def whole_word_def is_word_def)
  have parens: "sanitize ''('' = ''(''" "sanitize '')'' = '')''"
    by (simp_all add: sanitize_def is_word_def)
  have short: "\<forall>w l r. w \<in> set reserved_words \<and> ''{}'' = l @ w @ r \<longrightarrow> \<not> whole_word l r"
    by (auto simp add: reserved_words_def dest!: arg_cong [where f = length])
  have a: "sanitize ''(new)'' = ''('' @ [dquote] @ ''new'' @ [dquote] @ '')''"
    using C10_collection_files_parsed_as_json
      [where kw = "''new''" and pre = "''(''" and post = "'')''",
       THEN conjunct2, THEN conjunct1]
      new_word parens
    by simp
  have b: "sanitize ''{}'' = ''{}''"
    using C10_collection_files_parsed_as_json
      [where body = "''{}''",
       THEN conjunct2, THEN conjunct2, THEN conjunct1]
      short
    by blast
  have c: "safeParseCollectionFile sample_parse ?json =
      Inr (JObj [(''default'', JObj [(''widget'', JStr ''function'')])])"
    using C10_collection_files_parsed_as_json
      [where body = "?json" and P = sample_parse,
       THEN conjunct2, THEN conjunct2, THEN conjunct2, THEN conjunct2, THEN conjunct1]
      parsed
    by simp
  have d: "fst (collections_GET sample_server no_getCache no_setCache (Some ''file'')
        (Some ''posts.json'') ()) =
      Inr (FileModule (JObj [(''default'', JObj [(''widget'', JStr ''function'')])]))"
    using C10_collection_files_parsed_as_json
      [where srv = sample_server and listing = "?listing" and n = "''posts.json''"
         and body = "?json" and getCache = no_getCache and setCache = no_setCache
         and tier = "()",
       THEN conjunct2, THEN conjunct2, THEN conjunct2, THEN conjunct2, THEN conjunct2,
       THEN conjunct2, THEN conjunct2, THEN conjunct2, THEN conjunct2, THEN conjunct1]
      off fo bn atj module jparse
    by simp
  have e: "fst (collections_GET json_server no_getCache no_setCache (Some ''files'') None ()) =
      Inr (Files [JObj [(''default'', JObj [(''widget'', JStr ''function'')])],
                  JObj [(''default'', JObj [])]])"
    using C10_collection_files_parsed_as_json
      [where srv = json_server and listing = "?jlisting" and getCache = no_getCache
         and setCache = no_setCache and tier = "()" and name = None,
       THEN conjunct2, THEN conjunct2, THEN conjunct2, THEN conjunct2, THEN conjunct2,
       THEN conjunct2, THEN conjunct2, THEN conjunct2, THEN conjunct2, THEN conjunct2,
       THEN conjunct1]
      joff jfo module empty_module jparse
    by (simp add: suffix_to_prefix)
  have f: "fst (collections_GET sample_server no_getCache no_setCache (Some ''file'')
        (Some ''posts.js'') ()) =
      Inl (HttpError 500 ''Failed to process collections request: Invalid collection file format'')"
    using C10_collection_files_parsed_as_json
      [where srv = sample_server and listing = "?listing" and n = "''posts.js''"
         and h = "?h" and code = "?code" and getCache = no_getCache
         and setCache = no_setCache and tier = "()",
       THEN conjunct2, THEN conjunct2, THEN conjunct2, THEN conjunct2, THEN conjunct2,
       THEN conjunct2, THEN conjunct2, THEN conjunct2, THEN conjunct2, THEN conjunct2,
       THEN conjunct2, THEN conjunct1]
      rej off fo bn at
    by simp
  have g: "fst (collections_GET sample_server no_getCache no_setCache (Some ''files'') None ()) =
      Inl (HttpError 500 ''Failed to process collections request: Invalid collection file format'')"
    using C10_collection_files_parsed_as_json
      [where srv = sample_server and listing = "?listing" and f = "''posts.js''"
         and h = "?h" and code = "?code" and getCache = no_getCache
         and setCache = no_setCache and tier = "()" and name = None,
       THEN conjunct2, THEN conjunct2, THEN conjunct2, THEN conjunct2, THEN conjunct2,
       THEN conjunct2, THEN conjunct2, THEN conjunct2, THEN conjunct2, THEN conjunct2,
       THEN conjunct2, THEN conjunct2]
      rej off fo js at
    by simp
  from a b c d e f g show ?thesis by simp
qed

text \<open>
  Claim C10 as stated fails in its last clause. The text \<open>{"widget": function}\<close> is not
  JSON, and \<open>JSON.parse\<close> rejects it; sanitized it is \<open>{"widget": "function"}\<close>, and
  \<open>action=file\<close> returns it parsed.
\<close>

theorem C10_counterexample:
  "sample_parse (''{'' @ [dquote] @ ''widget'' @ [dquote] @ '': function}'') = None \<and>
   map_of [(''posts.json'', ''{'' @ [dquote] @ ''widget'' @ [dquote] @ '': function}'')]
     ''posts.json'' = Some (''{'' @ [dquote] @ ''widget'' @ [dquote] @ '': function}'') \<and>
   fst (collections_GET sample_server no_getCache no_setCache (Some ''file'') (Some ''posts.json'') ()) =
     Inr (FileModule (JObj [(''default'', JObj [(''widget'', JStr ''function'')])]))"
  by (simp add: sample_parse_def collections_GET_def compute_response_def falsy_def
      basename_def readFolderFile_def safeParseCollectionFile_def sanitize_def is_word_def
      starts_with_word_def sample_server_def)

section \<open>Properties of the category endpoint\<close>

lemma map_of_set_field: "map_of (set_field k v fs) = (map_of fs)(k \<mapsto> v)"
  by (induction fs) auto

lemma map_of_assign_fold:
  "map_of (foldl (\<lambda>fs kv. set_field (fst kv) (snd kv) fs) fs us) = map_of fs ++ map_of (rev us)"
proof (induction us arbitrary: fs)
  case Nil
  then show ?case by simp
next
  case (Cons kv us)
  have "map_of (foldl (\<lambda>fs kv. set_field (fst kv) (snd kv) fs) (set_field (fst kv) (snd kv) fs) us) =
      map_of (set_field (fst kv) (snd kv) fs) ++ map_of (rev us)"
    by (rule Cons.IH)
  also have "\<dots> = (map_of fs)(fst kv \<mapsto> snd kv) ++ map_of (rev us)"
    by (simp only: map_of_set_field)
  also have "\<dots> = map_of fs ++ map_of (rev (kv # us))"
    by (cases kv) (auto simp add: map_add_def fun_eq_iff split: option.split)
  finally show ?case by simp
qed

lemma props_assign:
  "map_of (props (assign c u)) k =
     (case map_of (rev (props u)) k of None \<Rightarrow> map_of (props c) k | Some v \<Rightarrow> Some v)"
  by (simp add: assign_def map_of_assign_fold map_add_def)

lemma paths_head: "p \<in> set (paths cats) \<Longrightarrow> p \<noteq> [] \<and> hd p \<in> fst ` set cats"
  by (induction cats rule: paths.induct) auto

lemma find_mapped: "find P (map f xs) = map_option f (find (\<lambda>x. P (f x)) xs)"
  by (induction xs) auto

lemma find_appended:
  "find P (xs @ ys) = (case find P xs of None \<Rightarrow> find P ys | Some x \<Rightarrow> Some x)"
  by (induction xs) auto

lemma find_same: "(\<And>x. x \<in> set xs \<Longrightarrow> P x = Q x) \<Longrightarrow> find P xs = find Q xs"
  by (induction xs) auto

lemma has_id_skip:
  assumes "p \<in> set (paths rest)" and "key \<notin> fst ` set rest"
  shows "has_id cid ((key, c) # rest) p = has_id cid rest p"
proof -
  from assms(1) have "p \<noteq> []" and "hd p \<in> fst ` set rest"
    using paths_head by blast+
  with assms(2) show ?thesis
    by (cases p) (auto simp add: has_id_def)
qed

lemma has_id_enter:
  assumes "q \<in> set (paths sub)"
  shows "has_id cid ((key, Category fs (Some sub)) # rest) (key # q) = has_id cid sub q"
proof -
  from assms have "q \<noteq> []" using paths_head by blast
  then show ?thesis by (simp add: has_id_def)
qed

lemma modify_at_skip:
  assumes "p \<in> set (paths rest)" and "key \<notin> fst ` set rest"
  shows "modify_at f p ((key, c) # rest) = (key, c) # modify_at f p rest"
proof -
  from assms(1) have "p \<noteq> []" and "hd p \<in> fst ` set rest"
    using paths_head by blast+
  with assms(2) show ?thesis
    by (cases p) auto
qed

lemma dfs_first_in_paths: "dfs_first cid cats = Some p \<Longrightarrow> p \<in> set (paths cats)"
  unfolding dfs_first_def by (auto simp add: find_Some_iff)

lemma dfs_first_skip:
  assumes "key \<notin> fst ` set rest"
  shows "find (has_id cid ((key, c) # rest)) (paths rest) = dfs_first cid rest"
  unfolding dfs_first_def using assms by (intro find_same has_id_skip)

lemma dfs_first_enter:
  "find (has_id cid ((key, Category fs (Some sub)) # rest)) (map ((#) key) (paths sub)) =
     map_option ((#) key) (dfs_first cid sub)"
  unfolding dfs_first_def find_mapped
  by (rule arg_cong [where f = "map_option ((#) key)"]) (intro find_same has_id_enter)

lemma updateCategory_dfs:
  "distinct_keys cats \<Longrightarrow>
   updateCategory cid u cats =
     map_option (\<lambda>p. modify_at (\<lambda>c. assign c u) p cats) (dfs_first cid cats)"
proof (induction cid u cats rule: updateCategory.induct)
  case (1 cid u)
  then show ?case by (simp add: dfs_first_def)
next
  case (2 cid u key fs rest)
  then have fresh: "key \<notin> fst ` set rest" and dk: "distinct_keys rest" by simp_all
  show ?case
  proof (cases "map_of fs ''id'' = cid")
    case True
    then show ?thesis by (simp add: dfs_first_def has_id_def)
  next
    case False
    then have split: "dfs_first cid ((key, Category fs None) # rest) = dfs_first cid rest"
      using dfs_first_skip [OF fresh, of cid "Category fs None"]
      by (simp add: dfs_first_def has_id_def)
    show ?thesis
    proof (cases "dfs_first cid rest")
      case None
      with False split "2.IH" dk show ?thesis by simp
    next
      case (Some p)
      then have "p \<in> set (paths rest)" by (rule dfs_first_in_paths)
      then have "modify_at (\<lambda>c. assign c u) p ((key, Category fs None) # rest) =
          (key, Category fs None) # modify_at (\<lambda>c. assign c u) p rest"
        using fresh by (rule modify_at_skip)
      with False split Some "2.IH" dk show ?thesis by simp
    qed
  qed
next
  case (3 cid u key fs sub rest)
  then have fresh: "key \<notin> fst ` set rest" and dks: "distinct_keys sub"
    and dk: "distinct_keys rest" by simp_all
  show ?case
  proof (cases "map_of fs ''id'' = cid")
    case True
    then show ?thesis by (simp add: dfs_first_def has_id_def)
  next
    case False
    have here: "\<not> has_id cid ((key, Category fs (Some sub)) # rest) [key]"
      using False by (simp add: has_id_def)
    have split: "dfs_first cid ((key, Category fs (Some sub)) # rest) =
        (case dfs_first cid sub of
           None \<Rightarrow> dfs_first cid rest
         | Some q \<Rightarrow> Some (key # q))"
      using here dfs_first_skip [OF fresh, of cid "Category fs (Some sub)"]
        dfs_first_enter [of cid key fs sub rest]
      by (simp add: dfs_first_def find_appended split: option.split)
    show ?thesis
    proof (cases "dfs_first cid sub")
      case (Some q)
      then have "q \<noteq> []" using dfs_first_in_paths paths_head by blast
      then have "modify_at (\<lambda>c. assign c u) (key # q) ((key, Category fs (Some sub)) # rest) =
          (key, Category fs (Some (modify_at (\<lambda>c. assign c u) q sub))) # rest"
        by simp
      with False split Some "3.IH"(1) dks show ?thesis by simp
    next
      case None
      note inner = None
      show ?thesis
      proof (cases "dfs_first cid rest")
        case None
        with False split inner "3.IH" dks dk show ?thesis by simp
      next
        case (Some p)
        then have "p \<in> set (paths rest)" by (rule dfs_first_in_paths)
        then have "modify_at (\<lambda>c. assign c u) p ((key, Category fs (Some sub)) # rest) =
            (key, Category fs (Some sub)) # modify_at (\<lambda>c. assign c u) p rest"
          using fresh by (rule modify_at_skip)
        with False split inner Some "3.IH" dks dk show ?thesis by simp
      qed
    qed
  qed
qed

lemma node_at_modified:
  "node_at cats p = Some c \<Longrightarrow> node_at (modify_at f p cats) p = Some (f c)"
proof (induction f p cats arbitrary: c rule: modify_at.induct)
  case (1 f cats)
  then show ?case by simp
next
  case (2 f k ks)
  then show ?case by simp
next
  case (3 f k ks key d rest)
  show ?case
  proof (cases "key = k")
    case False
    with "3.prems" "3.IH"(2) show ?thesis by simp
  next
    case True
    show ?thesis
    proof (cases "ks = []")
      case True
      with \<open>key = k\<close> "3.prems" show ?thesis by simp
    next
      case False
      with \<open>key = k\<close> "3.prems" obtain sub where sub: "subcategories d = Some sub"
        and at: "node_at sub ks = Some c"
        by (auto split: option.splits)
      from "3.IH"(1) [OF \<open>key = k\<close> False sub at] \<open>key = k\<close> False sub show ?thesis by simp
    qed
  qed
qed

lemma node_at_frame:
  "q \<noteq> p \<Longrightarrow> \<not> prefix p q \<or> (\<forall>c. subcategories (f c) = subcategories c) \<Longrightarrow>
   map_option props (node_at (modify_at f p cats) q) = map_option props (node_at cats q)"
proof (induction f p cats arbitrary: q rule: modify_at.induct)
  case (1 f cats)
  then show ?case by simp
next
  case (2 f k ks)
  then show ?case by simp
next
  case (3 f k ks key d rest)
  show ?case
  proof (cases q)
    case Nil
    then show ?thesis by simp
  next
    case (Cons j js)
    show ?thesis
    proof (cases "key = k")
      case False
      show ?thesis
      proof (cases "j = key")
        case True
        with False Cons show ?thesis by simp
      next
        case jk: False
        from "3.IH"(2) [OF False "3.prems"] False jk Cons show ?thesis by simp
      qed
    next
      case True
      show ?thesis
      proof (cases "j = key")
        case False
        with True Cons show ?thesis by (simp split: option.split)
      next
        case jk: True
        show ?thesis
        proof (cases "ks = []")
          case True
          with \<open>key = k\<close> jk Cons "3.prems" have "js \<noteq> []" and "\<forall>c. subcategories (f c) = subcategories c"
            by auto
          with True \<open>key = k\<close> jk Cons show ?thesis by simp
        next
          case False
          show ?thesis
          proof (cases "subcategories d")
            case None
            with False \<open>key = k\<close> show ?thesis by simp
          next
            case (Some sub)
            show ?thesis
            proof (cases "js = []")
              case True
              with False \<open>key = k\<close> jk Cons Some show ?thesis by simp
            next
              case jsne: False
              from "3.prems" \<open>key = k\<close> jk Cons have "js \<noteq> ks"
                and "\<not> prefix ks js \<or> (\<forall>c. subcategories (f c) = subcategories c)"
                by auto
              from "3.IH"(1) [OF \<open>key = k\<close> False Some this] False \<open>key = k\<close> jk Cons Some jsne
              show ?thesis by simp
            qed
          qed
        qed
      qed
    qed
  qed
qed

lemma PUT_state:
  assumes "updateCategory categoryId updates (registryCategories st) = Some cats"
    and "backupCategoryFiles env = None" and "writeFile env = None"
  shows "snd (PUT env categoryId updates st) =
           st\<lparr>registryCategories := cats, categoriesFile := Some cats\<rparr>"
  using assms
  by (simp add: PUT_def saveCategoryFile_def Let_def split: option.split)

text \<open>
  Claim C8. Take a category tree whose records have distinct keys, a PUT whose
  \<open>categoryId\<close> is the \<open>id\<close> of some node of the tree, and a backup and a file write that
  succeed. Then the node the handler updates is the first one with that \<open>id\<close> in
  depth-first order. After the request the registry's tree is the old tree with
  \<open>Object.assign(node, updates)\<close> at that node, and the categories file holds this whole
  tree. In the updated node a property supplied by the updates has the supplied value
  and every other property its old value. Every node that is neither the updated node
  nor below it has its old properties; when the updates supply no \<open>subcategories\<close>, so
  has every node below it.
\<close>

theorem C8_put_updates_one_node:
  assumes "distinct_keys (registryCategories st)"
    and "q \<in> set (paths (registryCategories st))"
    and "has_id categoryId (registryCategories st) q"
    and "backupCategoryFiles env = None" and "writeFile env = None"
  shows "let cats = registryCategories st;
             cats' = registryCategories (snd (PUT env categoryId updates st))
         in \<exists>p c. dfs_first categoryId cats = Some p \<and> node_at cats p = Some c \<and>
              updateCategory categoryId updates cats = Some cats' \<and>
              cats' = modify_at (\<lambda>c. assign c updates) p cats \<and>
              categoriesFile (snd (PUT env categoryId updates st)) = Some cats' \<and>
              node_at cats' p = Some (assign c updates) \<and>
              (\<forall>k. map_of (props (assign c updates)) k =
                 (case map_of (rev (props updates)) k of
                    None \<Rightarrow> map_of (props c) k
                  | Some v \<Rightarrow> Some v)) \<and>
              (\<forall>r. r \<noteq> p \<and> \<not> prefix p r \<longrightarrow>
                 map_option props (node_at cats' r) = map_option props (node_at cats r)) \<and>
              (subcategories updates = None \<longrightarrow>
                 (\<forall>r. r \<noteq> p \<longrightarrow>
                    map_option props (node_at cats' r) = map_option props (node_at cats r)))"
proof -
  define cats where "cats = registryCategories st"
  define f where "f = (\<lambda>c. assign c updates)"
  from assms(2,3) have "dfs_first categoryId cats \<noteq> None"
    unfolding dfs_first_def cats_def by (auto simp add: find_None_iff)
  then obtain p where p: "dfs_first categoryId cats = Some p" by auto
  then have "has_id categoryId cats p"
    unfolding dfs_first_def by (auto simp add: find_Some_iff)
  then obtain c where c: "node_at cats p = Some c"
    by (auto simp add: has_id_def split: option.splits)
  have upd: "updateCategory categoryId updates cats = Some (modify_at f p cats)"
    using updateCategory_dfs [of cats categoryId updates] assms(1) p
    by (simp add: cats_def f_def)
  have state: "snd (PUT env categoryId updates st) =
      st\<lparr>registryCategories := modify_at f p cats, categoriesFile := Some (modify_at f p cats)\<rparr>"
    using upd assms(4,5) unfolding cats_def by (rule PUT_state)
  have node: "node_at (modify_at f p cats) p = Some (assign c updates)"
    using node_at_modified [OF c, of f] by (simp add: f_def)
  have merged: "\<forall>k. map_of (props (assign c updates)) k =
      (case map_of (rev (props updates)) k of None \<Rightarrow> map_of (props c) k | Some v \<Rightarrow> Some v)"
    by (simp add: props_assign)
  have outside: "\<forall>r. r \<noteq> p \<and> \<not> prefix p r \<longrightarrow>
      map_option props (node_at (modify_at f p cats) r) = map_option props (node_at cats r)"
    by (simp add: node_at_frame)
  have below: "subcategories updates = None \<longrightarrow>
      (\<forall>r. r \<noteq> p \<longrightarrow>
         map_option props (node_at (modify_at f p cats) r) = map_option props (node_at cats r))"
  proof (intro impI allI)
    fix r
    assume "subcategories updates = None" and "r \<noteq> p"
    then have "\<forall>c. subcategories (f c) = subcategories c"
      by (simp add: f_def assign_def)
    with \<open>r \<noteq> p\<close> show "map_option props (node_at (modify_at f p cats) r) =
        map_option props (node_at cats r)"
      by (simp add: node_at_frame)
  qed
  show ?thesis
    unfolding Let_def cats_def [symmetric] state
    using p c upd node merged outside below
    by (auto simp add: f_def)
qed

theorem C8_put_updates_one_node_witness:
  "snd (PUT example_env (Some (JNum 3)) (Category [(''name'', JStr ''Delta'')] None)
          \<lparr>registryCategories = example_tree, categoriesFile = None\<rparr>) =
     \<lparr>registryCategories =
        [(''A'', Category [(''id'', JNum 1), (''name'', JStr ''Alpha'')] None),
         (''B'', Category [(''id'', JNum 2), (''name'', JStr ''Beta'')]
                   (Some [(''C'', Category [(''id'', JNum 3), (''name'', JStr ''Delta'')] None)]))],
      categoriesFile =
        Some [(''A'', Category [(''id'', JNum 1), (''name'', JStr ''Alpha'')] None),
              (''B'', Category [(''id'', JNum 2), (''name'', JStr ''Beta'')]
                        (Some [(''C'', Category [(''id'', JNum 3), (''name'', JStr ''Delta'')] None)]))]\<rparr> \<and>
   dfs_first (Some (JNum 3)) example_tree = Some [''B'', ''C'']"
proof -
  let ?st = "\<lparr>registryCategories = example_tree, categoriesFile = None\<rparr>"
  have wf: "distinct_keys (registryCategories ?st)"
    by (simp add: example_tree_def)
  have mem: "[''B'', ''C''] \<in> set (paths (registryCategories ?st))"
    by (simp add: example_tree_def)
  have hit: "has_id (Some (JNum 3)) (registryCategories ?st) [''B'', ''C'']"
    by (simp add: example_tree_def has_id_def)
  have io: "backupCategoryFiles example_env = None" "writeFile example_env = None"
    by (simp_all add: example_env_def)
  have first: "dfs_first (Some (JNum 3)) example_tree = Some [''B'', ''C'']"
    by (simp add: dfs_first_def example_tree_def has_id_def)
  from C8_put_updates_one_node [OF wf mem hit io, of "Category [(''name'', JStr ''Delta'')] None"]
  have "registryCategories (snd (PUT example_env (Some (JNum 3))
            (Category [(''name'', JStr ''Delta'')] None) ?st)) =
          modify_at (\<lambda>c. assign c (Category [(''name'', JStr ''Delta'')] None)) [''B'', ''C'']
            example_tree \<and>
        categoriesFile (snd (PUT example_env (Some (JNum 3))
            (Category [(''name'', JStr ''Delta'')] None) ?st)) =
          Some (modify_at (\<lambda>c. assign c (Category [(''name'', JStr ''Delta'')] None)) [''B'', ''C'']
            example_tree)"
    unfolding Let_def using first by auto
  moreover have "modify_at (\<lambda>c. assign c (Category [(''name'', JStr ''Delta'')] None)) [''B'', ''C'']
      example_tree =
        [(''A'', Category [(''id'', JNum 1), (''name'', JStr ''Alpha'')] None),
         (''B'', Category [(''id'', JNum 2), (''name'', JStr ''Beta'')]
                   (Some [(''C'', Category [(''id'', JNum 3), (''name'', JStr ''Delta'')] None)]))]"
    by (simp add: example_tree_def assign_def)
  ultimately show ?thesis
    using first
    by (cases "snd (PUT example_env (Some (JNum 3)) (Category [(''name'', JStr ''Delta'')] None) ?st)")
      simp
qed

end
